theory Spec2Isabelle
  imports Complex_Main "HOL-Library.Word"
begin

section \<open>The expression graph of IRNode.cpp\<close>

text \<open>
  The header IRNode.h is not part of the sources at hand; the enumerations below list the
  names that IRNode.cpp uses, and the dependency flags are kept as a set of flags.
\<close>

text \<open>\<open>Int\<close> is HOL's infix for intersection, so the type Int is \<open>IntT\<close>.\<close>

datatype Type = IntT | Float | Bool

datatype OpCode =
    Const | NoOp
  | VarX | VarY | VarT | VarC | UnboundVar
  | Plus | Minus | Times | Divide | Power | Mod
  | Sin | Cos | Tan | ASin | ACos | ATan | ATan2
  | Abs | Floor | Ceil | Round | Exp | Log
  | LT | GT | LTE | GTE | EQ | NEQ
  | And | Or | Nand
  | IntToFloat | FloatToInt
  | PlusImm | TimesImm | LoadImm | Load

text \<open>
  Modelled from the spec: the flags DepX, DepY, DepT, DepC, DepMem and DepUnbound of the
  missing header are distinct bits of a mask; a mask is the set of its flags, so that
  \<open>deps | d\<close> is a union, \<open>deps & d\<close> a membership test and \<open>deps == 0\<close> emptiness.
\<close>

datatype Dep = DepX | DepY | DepT | DepC | DepMem | DepUnbound

type_synonym int32 = "32 word"

text \<open>
  The C type float is kept abstract: a type \<open>'f\<close> of float values together with the
  operations that IRNode.cpp applies to them. Nothing below depends on how they round.
  NaN is outside the model and the two zeros are one value, so that \<open>==\<close> on floats and
  the key order of \<open>map<float, IRNode *>\<close> agree with equality on \<open>'f\<close>.
\<close>

record 'f float_ops =
  fadd :: "'f \<Rightarrow> 'f \<Rightarrow> 'f"
  fsub :: "'f \<Rightarrow> 'f \<Rightarrow> 'f"
  fmul :: "'f \<Rightarrow> 'f \<Rightarrow> 'f"
  fdiv :: "'f \<Rightarrow> 'f \<Rightarrow> 'f"
  fzero :: "'f"
  fone :: "'f"
  float_of_int :: "int32 \<Rightarrow> 'f"
  int_of_float :: "'f \<Rightarrow> int32"

text \<open>
  A node. A pointer \<open>IRNode *\<close> is the position of the node in \<open>allNodes\<close>; every
  constructor appends to that vector. The field \<open>marked\<close>, which only the collector
  reads and no constructor initialises, is left out.
\<close>

record 'f IRNode =
  type :: Type
  op :: OpCode
  inputs :: "nat list"
  outputs :: "nat list"
  ival :: int32
  fval :: 'f
  deps :: "Dep set"
  level :: nat
  reg :: int
  width :: nat

record 'f graph =
  allNodes :: "'f IRNode list"
  floatInstances :: "'f \<rightharpoonup> nat"
  intInstances :: "int32 \<rightharpoonup> nat"
  varInstances :: "OpCode \<rightharpoonup> nat"

definition empty_graph :: "'f graph" where
  "empty_graph =
     \<lparr>allNodes = [], floatInstances = Map.empty, intInstances = Map.empty,
      varInstances = Map.empty\<rparr>"

subsection \<open>Results and sequencing\<close>

text \<open>
  \<open>Fatal\<close> is \<open>panic\<close> or a failed \<open>assert\<close> (a message, then \<open>exit(-1)\<close>);
  \<open>Undefined\<close> is a read outside a vector or through a pointer that is not a node;
  \<open>OutOfFuel\<close> is a recursion deeper than the fuel given.
\<close>

datatype 'a result = Ok 'a | Fatal | Undefined | OutOfFuel

type_synonym ('f, 'a) M = "'f graph \<Rightarrow> ('a \<times> 'f graph) result"

definition ret :: "'a \<Rightarrow> ('f, 'a) M" where
  "ret x = (\<lambda>g. Ok (x, g))"

definition bnd :: "('f, 'a) M \<Rightarrow> ('a \<Rightarrow> ('f, 'b) M) \<Rightarrow> ('f, 'b) M" where
  "bnd m f = (\<lambda>g. case m g of
                 Ok (x, g') \<Rightarrow> f x g'
               | Fatal \<Rightarrow> Fatal
               | Undefined \<Rightarrow> Undefined
               | OutOfFuel \<Rightarrow> OutOfFuel)"

definition panic :: "('f, 'a) M" where
  "panic = (\<lambda>g. Fatal)"

definition assert :: "bool \<Rightarrow> ('f, unit) M" where
  "assert cond = (if cond then ret () else panic)"

definition undefined_behaviour :: "('f, 'a) M" where
  "undefined_behaviour = (\<lambda>g. Undefined)"

definition out_of_fuel :: "('f, 'a) M" where
  "out_of_fuel = (\<lambda>g. OutOfFuel)"

text \<open>\<open>p->...\<close>: the node behind a pointer.\<close>

definition node :: "nat \<Rightarrow> ('f, 'f IRNode) M" where
  "node p = (\<lambda>g. if p < length (allNodes g) then Ok (allNodes g ! p, g) else Undefined)"

text \<open>\<open>v[i]\<close> on a vector.\<close>

definition elem :: "'a list \<Rightarrow> nat \<Rightarrow> ('f, 'a) M" where
  "elem xs i = (if i < length xs then ret (xs ! i) else undefined_behaviour)"

text \<open>A stage of \<open>make\<close> that may return: \<open>Some p\<close> is \<open>return p\<close>.\<close>

definition orelse :: "('f, 'a option) M \<Rightarrow> ('f, 'a) M \<Rightarrow> ('f, 'a) M" where
  "orelse m k = bnd m (\<lambda>r. case r of Some p \<Rightarrow> ret p | None \<Rightarrow> k)"

definition otherwise :: "('f, 'a option) M \<Rightarrow> ('f, 'a option) M \<Rightarrow> ('f, 'a option) M" where
  "otherwise m k = bnd m (\<lambda>r. case r of Some p \<Rightarrow> ret (Some p) | None \<Rightarrow> k)"

fun mapM :: "('a \<Rightarrow> ('f, 'b) M) \<Rightarrow> 'a list \<Rightarrow> ('f, 'b list) M" where
  "mapM f [] = ret []"
| "mapM f (x # xs) = bnd (f x) (\<lambda>y. bnd (mapM f xs) (\<lambda>ys. ret (y # ys)))"

fun foldM :: "('b \<Rightarrow> 'a \<Rightarrow> ('f, 'b) M) \<Rightarrow> 'b \<Rightarrow> 'a list \<Rightarrow> ('f, 'b) M" where
  "foldM f a [] = ret a"
| "foldM f a (x # xs) = bnd (f a x) (\<lambda>a'. foldM f a' xs)"

subsection \<open>Constructors\<close>

text \<open>\<open>IRNode::IRNode(float v)\<close> and \<open>IRNode::IRNode(int v)\<close>.\<close>

definition float_node :: "'f \<Rightarrow> 'f IRNode" where
  "float_node v =
     \<lparr>type = Float, op = Const, inputs = [], outputs = [], ival = 0, fval = v,
      deps = {}, level = 0, reg = - 1, width = 1\<rparr>"

definition int_node :: "'f float_ops \<Rightarrow> int32 \<Rightarrow> 'f IRNode" where
  "int_node F v =
     \<lparr>type = IntT, op = Const, inputs = [], outputs = [], ival = v, fval = fzero F,
      deps = {}, level = 0, reg = - 1, width = 1\<rparr>"

text \<open>\<open>IRNode::make(float v)\<close> and \<open>IRNode::make(int v)\<close>.\<close>

definition make_float :: "'f \<Rightarrow> ('f, nat) M" where
  "make_float v = (\<lambda>g.
     case floatInstances g v of
       None \<Rightarrow>
         Ok (length (allNodes g),
             g\<lparr>allNodes := allNodes g @ [float_node v],
               floatInstances := (floatInstances g)(v \<mapsto> length (allNodes g))\<rparr>)
     | Some p \<Rightarrow> Ok (p, g))"

definition make_int :: "'f float_ops \<Rightarrow> int32 \<Rightarrow> ('f, nat) M" where
  "make_int F v = (\<lambda>g.
     case intInstances g v of
       None \<Rightarrow>
         Ok (length (allNodes g),
             g\<lparr>allNodes := allNodes g @ [int_node F v],
               intInstances := (intInstances g)(v \<mapsto> length (allNodes g))\<rparr>)
     | Some p \<Rightarrow> Ok (p, g))"

text \<open>
  \<open>IRNode::IRNode(Type t, OpCode opcode, vector<IRNode *> input, int iv, float fv)\<close>:
  the dependencies are the node's own flag and those of its inputs, every input gets
  the new node appended to its outputs, and the level is read off the dependencies.
\<close>

definition own_dep :: "OpCode \<Rightarrow> Dep set" where
  "own_dep opcode =
     (if opcode = VarX then {DepX}
      else if opcode = VarY then {DepY}
      else if opcode = VarT then {DepT}
      else if opcode = VarC then {DepC}
      else if opcode = Load then {DepMem}
      else if opcode = UnboundVar then {DepUnbound}
      else {})"

definition level_of :: "Dep set \<Rightarrow> nat" where
  "level_of d =
     (if DepUnbound \<in> d then 99
      else if DepC \<in> d \<or> DepMem \<in> d then 4
      else if DepX \<in> d then 3
      else if DepY \<in> d then 2
      else if DepT \<in> d then 1
      else 0)"

definition add_output :: "nat \<Rightarrow> 'f IRNode list \<Rightarrow> nat \<Rightarrow> 'f IRNode list" where
  "add_output this ns i = ns[i := (ns ! i)\<lparr>outputs := outputs (ns ! i) @ [this]\<rparr>]"

definition new_node ::
  "Type \<Rightarrow> OpCode \<Rightarrow> nat list \<Rightarrow> int32 \<Rightarrow> 'f \<Rightarrow> ('f, nat) M" where
  "new_node t opcode input iv fv =
     bnd (mapM node input) (\<lambda>ns g.
       let this = length (allNodes g);
           d = foldl (\<lambda>d n. d \<union> deps n) (own_dep opcode) ns;
           n = \<lparr>type = t, op = opcode, inputs = input, outputs = [], ival = iv, fval = fv,
                deps = d, level = level_of d, reg = - 1, width = 1\<rparr>
       in Ok (this, g\<lparr>allNodes := foldl (add_output this) (allNodes g) input @ [n]\<rparr>))"

subsection \<open>make: type inference and coercion (lines 78 to 212)\<close>

text \<open>
  The functions \<open>make\<close>, \<open>as\<close>, \<open>rebalanceSum\<close> and \<open>collectSum\<close> call each other.
  Each body below takes the functions it calls as arguments (\<open>mk\<close> for \<open>make\<close>,
  \<open>asf\<close> for \<open>as\<close>, \<open>rb\<close> for \<open>rebalanceSum\<close>, \<open>cs\<close> for \<open>collectSum\<close>); the
  recursion is closed further down. A call \<open>make(opcode, a, b)\<close> with the default
  immediates is \<open>mk opcode [a, b] 0 (fzero F)\<close>.
\<close>

definition some :: "('f, 'a) M \<Rightarrow> ('f, 'a option) M" where
  "some m = bnd m (\<lambda>p. ret (Some p))"

text \<open>\<open>inputs[i]->...\<close>\<close>

definition operand :: "nat list \<Rightarrow> nat \<Rightarrow> ('f, 'f IRNode) M" where
  "operand ins i = bnd (elem ins i) node"

text \<open>\<open>inputs[i] = inputs[i]->as(t)\<close>\<close>

definition coerce ::
  "(nat \<Rightarrow> Type \<Rightarrow> ('f, nat) M) \<Rightarrow> Type \<Rightarrow> nat \<Rightarrow> nat list \<Rightarrow> ('f, nat list) M" where
  "coerce asf t i ins =
     bnd (elem ins i) (\<lambda>p. bnd (asf p t) (\<lambda>p'. ret (ins[i := p'])))"

text \<open>\<open>inputs[0]->type == Float || inputs[1]->type == Float\<close>\<close>

definition either_float :: "nat list \<Rightarrow> ('f, bool) M" where
  "either_float ins =
     bnd (operand ins 0) (\<lambda>a.
       if type a = Float then ret True
       else bnd (operand ins 1) (\<lambda>b. ret (type b = Float)))"

text \<open>
  The \<open>switch\<close> on the opcode. \<open>Inl p\<close> is \<open>return p\<close>; \<open>Inr (t, inputs)\<close> is the type
  and the coerced inputs at the end of the switch.
\<close>

definition infer_type ::
  "(nat \<Rightarrow> Type \<Rightarrow> ('f, nat) M) \<Rightarrow> OpCode \<Rightarrow> nat list \<Rightarrow> ('f, nat + Type \<times> nat list) M" where
  "infer_type asf opcode ins =
    (if opcode = Const then panic
     else if opcode = NoOp then
       bnd (assert (length ins = 1)) (\<lambda>_.
       bnd (operand ins 0) (\<lambda>a. ret (Inr (type a, ins))))
     else if opcode \<in> {VarX, VarY, VarT, VarC, UnboundVar} then
       bnd (assert (length ins = 0)) (\<lambda>_. ret (Inr (IntT, ins)))
     else if opcode \<in> {Plus, Minus, Times, Power, Mod} then
       bnd (assert (length ins = 2)) (\<lambda>_.
       bnd (either_float ins) (\<lambda>f.
       let t = (if f then Float else IntT) in
       bnd (coerce asf t 0 ins) (\<lambda>ins.
       bnd (coerce asf t 1 ins) (\<lambda>ins. ret (Inr (t, ins))))))
     else if opcode \<in> {Divide, ATan2} then
       bnd (coerce asf Float 0 ins) (\<lambda>ins.
       bnd (coerce asf Float 1 ins) (\<lambda>ins. ret (Inr (Float, ins))))
     else if opcode \<in> {Sin, Cos, Tan, ASin, ACos, ATan, Exp, Log} then
       bnd (assert (length ins = 1)) (\<lambda>_.
       bnd (coerce asf Float 0 ins) (\<lambda>ins. ret (Inr (Float, ins))))
     else if opcode = Abs then
       bnd (assert (length ins = 1)) (\<lambda>_.
       bnd (operand ins 0) (\<lambda>a.
       if type a = Bool then ret (Inl (ins ! 0))
       else ret (Inr (type a, ins))))
     else if opcode \<in> {Floor, Ceil, Round} then
       bnd (assert (length ins = 1)) (\<lambda>_.
       bnd (operand ins 0) (\<lambda>a.
       if type a \<noteq> Float then ret (Inl (ins ! 0))
       else ret (Inr (Float, ins))))
     else if opcode \<in> {LT, GT, LTE, GTE, EQ, NEQ} then
       bnd (assert (length ins = 2)) (\<lambda>_.
       bnd (either_float ins) (\<lambda>f.
       let t = (if f then Float else Bool) in
       bnd (coerce asf t 0 ins) (\<lambda>ins.
       bnd (coerce asf t 1 ins) (\<lambda>ins. ret (Inr (Bool, ins))))))
     else if opcode \<in> {And, Nand} then
       bnd (assert (length ins = 2)) (\<lambda>_.
       bnd (coerce asf Bool 0 ins) (\<lambda>ins.
       bnd (operand ins 1) (\<lambda>b. ret (Inr (type b, ins)))))
     else if opcode = Or then
       bnd (assert (length ins = 2)) (\<lambda>_.
       bnd (either_float ins) (\<lambda>f.
       bnd (operand ins 0) (\<lambda>a.
       let t = (if f then Float
                else if type a = IntT \<or> type a = IntT then IntT
                else Bool) in
       bnd (coerce asf t 0 ins) (\<lambda>ins.
       bnd (coerce asf t 1 ins) (\<lambda>ins. ret (Inr (t, ins)))))))
     else if opcode = IntToFloat then
       bnd (assert (length ins = 1)) (\<lambda>_.
       bnd (operand ins 0) (\<lambda>a.
       bnd (assert (type a = IntT)) (\<lambda>_. ret (Inr (Float, ins)))))
     else if opcode = FloatToInt then
       bnd (assert (length ins = 1)) (\<lambda>_.
       bnd (operand ins 0) (\<lambda>a.
       bnd (assert (type a = Float)) (\<lambda>_. ret (Inr (IntT, ins)))))
     else if opcode \<in> {PlusImm, TimesImm} then
       bnd (assert (length ins = 1)) (\<lambda>_. ret (Inr (IntT, ins)))
     else
       bnd (assert (length ins = 1)) (\<lambda>_.
       bnd (coerce asf IntT 0 ins) (\<lambda>ins. ret (Inr (Float, ins)))))"

subsection \<open>make: constant folding (lines 214 to 272)\<close>

fun allInputsConst :: "nat list \<Rightarrow> ('f, bool) M" where
  "allInputsConst [] = ret True"
| "allInputsConst (i # ins) =
     bnd (node i) (\<lambda>n. if deps n \<noteq> {} then ret False else allInputsConst ins)"

definition fold_constants ::
  "'f float_ops \<Rightarrow> OpCode \<Rightarrow> Type \<Rightarrow> nat list \<Rightarrow> int32 \<Rightarrow> ('f, nat option) M" where
  "fold_constants F opcode t ins iv =
     bnd (allInputsConst ins) (\<lambda>c.
     if c \<and> ins \<noteq> [] then
       (if opcode = Plus then
          bnd (operand ins 0) (\<lambda>a. bnd (operand ins 1) (\<lambda>b.
          if t = Float then some (make_float (fadd F (fval a) (fval b)))
          else some (make_int F (ival a + ival b))))
        else if opcode = Minus then
          bnd (operand ins 0) (\<lambda>a. bnd (operand ins 1) (\<lambda>b.
          if t = Float then some (make_float (fsub F (fval a) (fval b)))
          else some (make_int F (ival a - ival b))))
        else if opcode = Times then
          bnd (operand ins 0) (\<lambda>a. bnd (operand ins 1) (\<lambda>b.
          if t = Float then some (make_float (fmul F (fval a) (fval b)))
          else some (make_int F (ival a * ival b))))
        else if opcode = PlusImm then
          bnd (operand ins 0) (\<lambda>a. some (make_int F (ival a + iv)))
        else if opcode = TimesImm then
          bnd (operand ins 0) (\<lambda>a. some (make_int F (ival a * iv)))
        else if opcode = Divide then
          bnd (operand ins 0) (\<lambda>a. bnd (operand ins 1) (\<lambda>b.
          some (make_float (fdiv F (fval a) (fval b)))))
        else if opcode = And then
          bnd (operand ins 0) (\<lambda>a. bnd (operand ins 1) (\<lambda>b.
          if t = Float then some (make_float (if ival a \<noteq> 0 then fval b else fzero F))
          else some (make_int F (if ival a \<noteq> 0 then ival b else 0))))
        else if opcode = Or then
          bnd (operand ins 0) (\<lambda>a. bnd (operand ins 1) (\<lambda>b.
          if t = Float then some (make_float (fadd F (fval a) (fval b)))
          else some (make_int F (or (ival a) (ival b)))))
        else if opcode = Nand then
          bnd (operand ins 0) (\<lambda>a. bnd (operand ins 1) (\<lambda>b.
          if t = Float then some (make_float (if \<not> ival a \<noteq> 0 then fval b else fzero F))
          else some (make_int F (if \<not> ival a \<noteq> 0 then ival b else 0))))
        else if opcode = IntToFloat then
          bnd (operand ins 0) (\<lambda>a. some (make_float (float_of_int F (ival a))))
        else if opcode = FloatToInt then
          bnd (operand ins 0) (\<lambda>a. some (make_int F (int_of_float F (fval a))))
        else ret None)
     else ret None)"

subsection \<open>make: strength reduction (lines 274 to 360)\<close>

definition noop :: "OpCode \<Rightarrow> nat list \<Rightarrow> ('f, nat option) M" where
  "noop opcode ins = (if opcode = NoOp then some (elem ins 0) else ret None)"

text \<open>\<open>x/y = x*(1/y)\<close> when \<open>y\<close> is of a lower level than \<open>x\<close>.\<close>

definition divide_hoist ::
  "'f float_ops \<Rightarrow> (OpCode \<Rightarrow> nat list \<Rightarrow> int32 \<Rightarrow> 'f \<Rightarrow> ('f, nat) M) \<Rightarrow>
   OpCode \<Rightarrow> nat list \<Rightarrow> ('f, nat option) M" where
  "divide_hoist F mk opcode ins =
     (if opcode = Divide then
        bnd (operand ins 1) (\<lambda>n1. bnd (operand ins 0) (\<lambda>n0.
        if level n1 < level n0 then
          bnd (make_float (fone F)) (\<lambda>one.
          bnd (mk Divide [one, ins ! 1] 0 (fzero F)) (\<lambda>inv.
          some (mk Times [ins ! 0, inv] 0 (fzero F))))
        else ret None))
      else ret None)"

text \<open>
  The selection of \<open>x\<close>, \<open>a\<close> and \<open>b\<close> that both rewrites of a product start with;
  \<open>which\<close> is the opcode looked for in the operands (\<open>Plus\<close>, then \<open>Times\<close>), and
  \<open>ix\<close>, \<open>ia\<close> are the positions that \<open>x\<close> and \<open>a\<close> are read from.
\<close>

definition select_xab ::
  "OpCode \<Rightarrow> nat \<Rightarrow> nat \<Rightarrow> nat list \<Rightarrow> ('f, (nat \<times> nat \<times> nat) option) M" where
  "select_xab which ix ia ins =
     bnd (operand ins 0) (\<lambda>n0.
     if op n0 = which then
       bnd (elem ins 1) (\<lambda>b. bnd (elem (inputs n0) ix) (\<lambda>x.
       bnd (elem (inputs n0) ia) (\<lambda>a. ret (Some (x, a, b)))))
     else
       bnd (operand ins 1) (\<lambda>n1.
       if op n1 = which then
         bnd (elem ins 0) (\<lambda>b. bnd (elem (inputs n1) ix) (\<lambda>x.
         bnd (elem (inputs n1) ia) (\<lambda>a. ret (Some (x, a, b)))))
       else ret None))"

text \<open>
  \<open>x\<close> is the higher level of \<open>x\<close> and \<open>a\<close>; the rewrite \<open>k x a b\<close> is worth it when
  \<open>a\<close> and \<open>b\<close> are both of a lower level than \<open>x\<close>.
\<close>

definition by_level ::
  "(nat \<Rightarrow> nat \<Rightarrow> nat \<Rightarrow> ('f, nat) M) \<Rightarrow> (nat \<times> nat \<times> nat) option \<Rightarrow> ('f, nat option) M" where
  "by_level k sel =
     (case sel of
        None \<Rightarrow> ret None
      | Some (x, a, b) \<Rightarrow>
          bnd (node x) (\<lambda>nx. bnd (node a) (\<lambda>na.
          let (x, a) = (if level nx < level na then (a, x) else (x, a)) in
          bnd (node x) (\<lambda>nx. bnd (node a) (\<lambda>na. bnd (node b) (\<lambda>nb.
          if level nx > level na \<and> level nx > level nb then some (k x a b)
          else ret None))))))"

text \<open>
  \<open>(x+a)*b = x*b + a*b\<close>, and the product with a \<open>PlusImm\<close>. The two products that
  are the arguments of the sum are made from left to right (C++ leaves the order open;
  it decides which of the two nodes is allocated first, nothing else). The \<open>printf\<close>
  of the second rewrite is left out.
\<close>

definition distribute ::
  "'f float_ops \<Rightarrow> (OpCode \<Rightarrow> nat list \<Rightarrow> int32 \<Rightarrow> 'f \<Rightarrow> ('f, nat) M) \<Rightarrow>
   OpCode \<Rightarrow> nat list \<Rightarrow> ('f, nat option) M" where
  "distribute F mk opcode ins =
     (if opcode = Times then
        otherwise
          (bnd (select_xab Plus 1 0 ins)
             (by_level (\<lambda>x a b.
                bnd (mk Times [x, b] 0 (fzero F)) (\<lambda>xb.
                bnd (mk Times [a, b] 0 (fzero F)) (\<lambda>ab.
                mk Plus [xb, ab] 0 (fzero F))))))
          (bnd (operand ins 0) (\<lambda>n0.
           if op n0 = PlusImm then
             bnd (elem (inputs n0) 0) (\<lambda>y. bnd (elem ins 1) (\<lambda>b.
             bnd (mk Times [y, b] 0 (fzero F)) (\<lambda>yb.
             bnd (make_int F (ival n0)) (\<lambda>k.
             bnd (mk Times [b, k] 0 (fzero F)) (\<lambda>bk.
             some (mk Plus [yb, bk] 0 (fzero F)))))))
           else ret None))
      else ret None)"

text \<open>\<open>(x*a)*b = x*(a*b)\<close> where \<open>a\<close> and \<open>b\<close> are more constant than \<open>x\<close>.\<close>

definition reassociate ::
  "'f float_ops \<Rightarrow> (OpCode \<Rightarrow> nat list \<Rightarrow> int32 \<Rightarrow> 'f \<Rightarrow> ('f, nat) M) \<Rightarrow>
   OpCode \<Rightarrow> nat list \<Rightarrow> ('f, nat option) M" where
  "reassociate F mk opcode ins =
     (if opcode = Times then
        bnd (select_xab Times 0 1 ins)
          (by_level (\<lambda>x a b.
             bnd (mk Times [a, b] 0 (fzero F)) (\<lambda>ab.
             mk Times [x, ab] 0 (fzero F))))
      else ret None)"

text \<open>Sums among the inputs of a node that is not a sum are rebalanced (lines 445 to 450).\<close>

definition rebalance_inputs ::
  "(nat \<Rightarrow> ('f, nat) M) \<Rightarrow> OpCode \<Rightarrow> nat list \<Rightarrow> ('f, nat list) M" where
  "rebalance_inputs rb opcode ins =
     (if opcode \<noteq> Plus \<and> opcode \<noteq> Minus \<and> opcode \<noteq> PlusImm then mapM rb ins
      else ret ins)"

subsection \<open>make: variables, fusion, common subexpressions (lines 452 to 539)\<close>

definition variables :: "'f float_ops \<Rightarrow> OpCode \<Rightarrow> Type \<Rightarrow> ('f, nat option) M" where
  "variables F opcode t =
     (if opcode = VarX \<or> opcode = VarY \<or> opcode = VarT \<or> opcode = VarC then
        (\<lambda>g. case varInstances g opcode of
               None \<Rightarrow>
                 bnd (new_node t opcode [] 0 (fzero F))
                   (\<lambda>p g'. Ok (Some p, g'\<lparr>varInstances := (varInstances g')(opcode \<mapsto> p)\<rparr>)) g
             | Some p \<Rightarrow> Ok (Some p, g))
      else if opcode = UnboundVar then some (new_node t opcode [] 0 (fzero F))
      else ret None)"

text \<open>A load of something plus an int constant becomes a load with an offset.\<close>

definition fuse_load ::
  "'f float_ops \<Rightarrow> (OpCode \<Rightarrow> nat list \<Rightarrow> int32 \<Rightarrow> 'f \<Rightarrow> ('f, nat) M) \<Rightarrow>
   OpCode \<Rightarrow> nat list \<Rightarrow> int32 \<Rightarrow> ('f, nat option) M" where
  "fuse_load F mk opcode ins iv =
     (if opcode = Load \<or> opcode = LoadImm then
        bnd (operand ins 0) (\<lambda>n0.
        if op n0 = Plus then
          bnd (elem (inputs n0) 0) (\<lambda>left. bnd (elem (inputs n0) 1) (\<lambda>right.
          bnd (node left) (\<lambda>nl.
          if op nl = Const then some (mk LoadImm [right] (ival nl + iv) (fzero F))
          else
            bnd (node right) (\<lambda>nr.
            if op nr = Const then some (mk LoadImm [left] (ival nr + iv) (fzero F))
            else ret None))))
        else
          bnd (if op n0 = Minus
               then bnd (elem (inputs n0) 1) (\<lambda>r. bnd (node r) (\<lambda>nr. ret (op nr = Const)))
               else ret False) (\<lambda>minus_const.
          if minus_const then
            bnd (elem (inputs n0) 0) (\<lambda>l. bnd (elem (inputs n0) 1) (\<lambda>r. bnd (node r) (\<lambda>nr.
            some (mk LoadImm [l] (- ival nr + iv) (fzero F)))))
          else if op n0 = PlusImm then
            bnd (elem (inputs n0) 0) (\<lambda>l. some (mk LoadImm [l] (ival n0 + iv) (fzero F)))
          else ret None))
      else ret None)"

text \<open>A product with an int constant becomes a \<open>TimesImm\<close>.\<close>

definition fuse_times ::
  "'f float_ops \<Rightarrow> (OpCode \<Rightarrow> nat list \<Rightarrow> int32 \<Rightarrow> 'f \<Rightarrow> ('f, nat) M) \<Rightarrow>
   OpCode \<Rightarrow> Type \<Rightarrow> nat list \<Rightarrow> ('f, nat option) M" where
  "fuse_times F mk opcode t ins =
     (if opcode = Times \<and> t = IntT then
        bnd (elem ins 0) (\<lambda>left. bnd (elem ins 1) (\<lambda>right.
        bnd (node left) (\<lambda>nl.
        if op nl = Const then some (mk TimesImm [right] (ival nl) (fzero F))
        else
          bnd (node right) (\<lambda>nr.
          if op nr = Const then some (mk TimesImm [left] (ival nr) (fzero F))
          else ret None))))
      else ret None)"

text \<open>
  The first parent of \<open>inputs[0]\<close> that does the same operation on the same inputs.
  The inner loop over \<open>j\<close> compares two vectors of one size element by element.
\<close>

fun candidates ::
  "OpCode \<Rightarrow> Type \<Rightarrow> nat list \<Rightarrow> int32 \<Rightarrow> 'f \<Rightarrow> nat list \<Rightarrow> ('f, nat option) M" where
  "candidates opcode t ins iv fv [] = ret None"
| "candidates opcode t ins iv fv (c # cs) =
     bnd (node c) (\<lambda>candidate.
     if ival candidate \<noteq> iv then candidates opcode t ins iv fv cs
     else if fval candidate \<noteq> fv then candidates opcode t ins iv fv cs
     else if op candidate \<noteq> opcode then candidates opcode t ins iv fv cs
     else if type candidate \<noteq> t then candidates opcode t ins iv fv cs
     else if length (inputs candidate) \<noteq> length ins then candidates opcode t ins iv fv cs
     else if inputs candidate = ins then ret (Some c)
     else candidates opcode t ins iv fv cs)"

definition cse ::
  "OpCode \<Rightarrow> Type \<Rightarrow> nat list \<Rightarrow> int32 \<Rightarrow> 'f \<Rightarrow> ('f, nat option) M" where
  "cse opcode t ins iv fv =
     (if ins \<noteq> [] then
        bnd (operand ins 0) (\<lambda>n0. candidates opcode t ins iv fv (outputs n0))
      else ret None)"

text \<open>The body of \<open>IRNode::make(OpCode, vector<IRNode *>, int, float)\<close>.\<close>

definition make_body ::
  "'f float_ops \<Rightarrow> (OpCode \<Rightarrow> nat list \<Rightarrow> int32 \<Rightarrow> 'f \<Rightarrow> ('f, nat) M) \<Rightarrow>
   (nat \<Rightarrow> Type \<Rightarrow> ('f, nat) M) \<Rightarrow> (nat \<Rightarrow> ('f, nat) M) \<Rightarrow>
   OpCode \<Rightarrow> nat list \<Rightarrow> int32 \<Rightarrow> 'f \<Rightarrow> ('f, nat) M" where
  "make_body F mk asf rb opcode ins iv fv =
     bnd (infer_type asf opcode ins) (\<lambda>r.
     case r of
       Inl p \<Rightarrow> ret p
     | Inr (t, ins) \<Rightarrow>
         orelse (fold_constants F opcode t ins iv)
        (orelse (noop opcode ins)
        (orelse (divide_hoist F mk opcode ins)
        (orelse (distribute F mk opcode ins)
        (orelse (reassociate F mk opcode ins)
        (bnd (rebalance_inputs rb opcode ins) (\<lambda>ins.
         orelse (variables F opcode t)
        (orelse (fuse_load F mk opcode ins iv)
        (orelse (fuse_times F mk opcode t ins)
        (orelse (cse opcode t ins iv fv)
        (new_node t opcode ins iv fv)))))))))))"

subsection \<open>Type coercion: \<open>IRNode::as\<close>\<close>

definition as_body ::
  "'f float_ops \<Rightarrow> (OpCode \<Rightarrow> nat list \<Rightarrow> int32 \<Rightarrow> 'f \<Rightarrow> ('f, nat) M) \<Rightarrow>
   nat \<Rightarrow> Type \<Rightarrow> ('f, nat) M" where
  "as_body F mk this t =
     bnd (node this) (\<lambda>n.
     if t = type n then ret this
     else if type n = IntT \<and> t = Float then mk IntToFloat [this] 0 (fzero F)
     else if type n = IntT \<and> t = Bool then
       bnd (make_int F 0) (\<lambda>z. mk NEQ [this, z] 0 (fzero F))
     else if type n = Bool \<and> t = Float then
       bnd (make_float (fone F)) (\<lambda>one. mk And [this, one] 0 (fzero F))
     else if type n = Bool \<and> t = IntT then
       bnd (make_int F 1) (\<lambda>one. mk And [this, one] 0 (fzero F))
     else if type n = Float \<and> t = Bool then
       bnd (make_float (fzero F)) (\<lambda>z. mk NEQ [this, z] 0 (fzero F))
     else if type n = Float \<and> t = IntT then mk FloatToInt [this] 0 (fzero F)
     else panic)"

subsection \<open>Sums: \<open>IRNode::collectSum\<close> and \<open>IRNode::rebalanceSum\<close>\<close>

text \<open>
  \<open>collectSum\<close> appends to the vector \<open>terms\<close> it is given by reference; here it returns
  the longer vector.
\<close>

definition collect_body ::
  "'f float_ops \<Rightarrow> (nat \<Rightarrow> bool \<Rightarrow> (nat \<times> bool) list \<Rightarrow> ('f, (nat \<times> bool) list) M) \<Rightarrow>
   nat \<Rightarrow> bool \<Rightarrow> (nat \<times> bool) list \<Rightarrow> ('f, (nat \<times> bool) list) M" where
  "collect_body F cs this positive terms =
     bnd (node this) (\<lambda>n.
     if op n = Plus then
       bnd (elem (inputs n) 0) (\<lambda>a. bnd (cs a positive terms) (\<lambda>terms.
       bnd (elem (inputs n) 1) (\<lambda>b. cs b positive terms)))
     else if op n = Minus then
       bnd (elem (inputs n) 0) (\<lambda>a. bnd (cs a positive terms) (\<lambda>terms.
       bnd (elem (inputs n) 1) (\<lambda>b. cs b (\<not> positive) terms)))
     else if op n = PlusImm then
       bnd (elem (inputs n) 0) (\<lambda>a. bnd (cs a positive terms) (\<lambda>terms.
       bnd (make_int F (ival n)) (\<lambda>k. ret (terms @ [(k, True)]))))
     else ret (terms @ [(this, positive)]))"

fun collectSum ::
  "'f float_ops \<Rightarrow> nat \<Rightarrow> nat \<Rightarrow> bool \<Rightarrow> (nat \<times> bool) list \<Rightarrow> ('f, (nat \<times> bool) list) M" where
  "collectSum F 0 this positive terms = out_of_fuel"
| "collectSum F (Suc k) this positive terms =
     collect_body F (collectSum F k) this positive terms"

text \<open>The loop that extracts the constant terms: (constTerms, nonConstTerms).\<close>

fun split_terms ::
  "(nat \<times> bool) list \<Rightarrow> ('f, (nat \<times> bool) list \<times> (nat \<times> bool) list) M" where
  "split_terms [] = ret ([], [])"
| "split_terms (tm # terms) =
     bnd (node (fst tm)) (\<lambda>n.
     bnd (split_terms terms) (\<lambda>(cts, ncts).
     if op n = Const then ret (tm # cts, ncts) else ret (cts, tm # ncts)))"

text \<open>
  The two nested loops that sort the non-constant terms by level; \<open>lv\<close> reads the level
  of a term (every term has been read by \<open>split_terms\<close> before).
\<close>

definition swap_if_greater ::
  "(nat \<Rightarrow> nat) \<Rightarrow> nat \<Rightarrow> (nat \<times> bool) list \<Rightarrow> nat \<Rightarrow> (nat \<times> bool) list" where
  "swap_if_greater lv i ts j =
     (if lv (fst (ts ! i)) > lv (fst (ts ! j)) then ts[i := ts ! j, j := ts ! i] else ts)"

definition sort_by_level :: "(nat \<Rightarrow> nat) \<Rightarrow> (nat \<times> bool) list \<Rightarrow> (nat \<times> bool) list" where
  "sort_by_level lv ts =
     foldl (\<lambda>ts i. foldl (swap_if_greater lv i) ts [i + 1 ..< length ts]) ts [0 ..< length ts]"

definition levels :: "('f, nat \<Rightarrow> nat) M" where
  "levels = (\<lambda>g. Ok (\<lambda>p. level (allNodes g ! p), g))"

text \<open>The constant of a float sum and of an int sum.\<close>

definition float_constant :: "'f float_ops \<Rightarrow> (nat \<times> bool) list \<Rightarrow> ('f, 'f) M" where
  "float_constant F constTerms =
     foldM (\<lambda>c (p, positive). bnd (node p) (\<lambda>n.
              ret (if positive then fadd F c (fval n) else fsub F c (fval n))))
       (fzero F) constTerms"

definition int_constant :: "(nat \<times> bool) list \<Rightarrow> ('f, int32) M" where
  "int_constant constTerms =
     foldM (\<lambda>c (p, positive). bnd (node p) (\<lambda>n.
              ret (if positive then c + ival n else c - ival n)))
       0 constTerms"

text \<open>One round of the loop that remakes the summation.\<close>

definition add_term ::
  "'f float_ops \<Rightarrow> (OpCode \<Rightarrow> nat list \<Rightarrow> int32 \<Rightarrow> 'f \<Rightarrow> ('f, nat) M) \<Rightarrow>
   nat \<times> bool \<Rightarrow> nat \<times> bool \<Rightarrow> ('f, nat \<times> bool) M" where
  "add_term F mk acc next =
     (case (acc, next) of ((t, tPos), (p, nextPos)) \<Rightarrow>
        if tPos = nextPos then bnd (mk Plus [t, p] 0 (fzero F)) (\<lambda>t. ret (t, tPos))
        else if tPos then bnd (mk Minus [t, p] 0 (fzero F)) (\<lambda>t. ret (t, tPos))
        else bnd (mk Minus [p, t] 0 (fzero F)) (\<lambda>t. ret (t, True)))"

definition rebalance_body ::
  "'f float_ops \<Rightarrow> (OpCode \<Rightarrow> nat list \<Rightarrow> int32 \<Rightarrow> 'f \<Rightarrow> ('f, nat) M) \<Rightarrow>
   (nat \<Rightarrow> bool \<Rightarrow> (nat \<times> bool) list \<Rightarrow> ('f, (nat \<times> bool) list) M) \<Rightarrow>
   nat \<Rightarrow> ('f, nat) M" where
  "rebalance_body F mk cs this =
     bnd (node this) (\<lambda>n.
     if op n \<noteq> Plus \<and> op n \<noteq> Minus \<and> op n \<noteq> PlusImm then ret this
     else
       bnd (cs this True []) (\<lambda>terms.
       bnd (split_terms terms) (\<lambda>(constTerms, nonConstTerms).
       bnd levels (\<lambda>lv.
       let nonConstTerms = sort_by_level lv nonConstTerms in
       bnd (elem nonConstTerms 0) (\<lambda>(t, tPos).
       bnd (if type n = Float then
              bnd (float_constant F constTerms) (\<lambda>c.
              if c \<noteq> fzero F then
                bnd (make_float c) (\<lambda>k.
                if tPos then mk Plus [k, t] 0 (fzero F) else mk Minus [k, t] 0 (fzero F))
              else ret t)
            else ret t) (\<lambda>t.
       bnd (foldM (add_term F mk) (t, tPos) (tl nonConstTerms)) (\<lambda>(t, tPos).
       if type n = IntT then
         bnd (int_constant constTerms) (\<lambda>c.
         if c \<noteq> 0 then
           if tPos then mk PlusImm [t] c (fzero F)
           else bnd (make_int F c) (\<lambda>k. mk Minus [k, t] 0 (fzero F))
         else ret t)
       else ret t)))))))"

subsection \<open>The recursion\<close>

text \<open>
  The first argument after the float operations is the fuel: how deep the calls may
  nest. With no fuel left a call is \<open>OutOfFuel\<close>.
\<close>

fun make ::
    "'f float_ops \<Rightarrow> nat \<Rightarrow> OpCode \<Rightarrow> nat list \<Rightarrow> int32 \<Rightarrow> 'f \<Rightarrow> ('f, nat) M"
  and as_type :: "'f float_ops \<Rightarrow> nat \<Rightarrow> nat \<Rightarrow> Type \<Rightarrow> ('f, nat) M"
  and rebalanceSum :: "'f float_ops \<Rightarrow> nat \<Rightarrow> nat \<Rightarrow> ('f, nat) M" where
  "make F 0 opcode ins iv fv = out_of_fuel"
| "make F (Suc k) opcode ins iv fv =
     make_body F (make F k) (as_type F k) (rebalanceSum F k) opcode ins iv fv"
| "as_type F 0 this t = out_of_fuel"
| "as_type F (Suc k) this t = as_body F (make F k) this t"
| "rebalanceSum F 0 this = out_of_fuel"
| "rebalanceSum F (Suc k) this = rebalance_body F (make F k) (collectSum F k) this"

text \<open>\<open>IRNode::optimize\<close>\<close>

definition optimize :: "'f float_ops \<Rightarrow> nat \<Rightarrow> nat \<Rightarrow> ('f, nat) M" where
  "optimize F k this = rebalanceSum F k this"

subsection \<open>\<open>IRNode::substitute\<close> and \<open>IRNode::bind\<close>\<close>

definition substitute_body ::
  "'f float_ops \<Rightarrow> (OpCode \<Rightarrow> nat list \<Rightarrow> int32 \<Rightarrow> 'f \<Rightarrow> ('f, nat) M) \<Rightarrow>
   (nat \<Rightarrow> OpCode \<Rightarrow> int32 \<Rightarrow> ('f, nat) M) \<Rightarrow> nat \<Rightarrow> OpCode \<Rightarrow> int32 \<Rightarrow> ('f, nat) M" where
  "substitute_body F mk sub this var val =
     bnd (node this) (\<lambda>n.
     if op n = var then make_int F val
     else
       bnd (if var = VarC then ret DepC
            else if var = VarX then ret DepX
            else if var = VarY then ret DepY
            else if var = VarT then ret DepT
            else panic) (\<lambda>dep.
       if dep \<in> deps n then
         bnd (mapM (\<lambda>i. sub i var val) (inputs n)) (\<lambda>newInputs.
         mk (op n) newInputs (ival n) (fval n))
       else ret this))"

fun substitute :: "'f float_ops \<Rightarrow> nat \<Rightarrow> nat \<Rightarrow> OpCode \<Rightarrow> int32 \<Rightarrow> ('f, nat) M" where
  "substitute F 0 this var val = out_of_fuel"
| "substitute F (Suc k) this var val =
     substitute_body F (make F k) (substitute F k) this var val"

definition bind_body ::
  "'f float_ops \<Rightarrow> (OpCode \<Rightarrow> nat list \<Rightarrow> int32 \<Rightarrow> 'f \<Rightarrow> ('f, nat) M) \<Rightarrow>
   (nat \<Rightarrow> nat \<Rightarrow> nat \<Rightarrow> nat \<Rightarrow> nat \<Rightarrow> ('f, nat) M) \<Rightarrow>
   nat \<Rightarrow> nat \<Rightarrow> nat \<Rightarrow> nat \<Rightarrow> nat \<Rightarrow> ('f, nat) M" where
  "bind_body F mk bd this x y t c =
     bnd (node this) (\<lambda>n.
     if DepUnbound \<notin> deps n then ret this
     else if this = x then mk VarX [] 0 (fzero F)
     else if this = y then mk VarY [] 0 (fzero F)
     else if this = c then mk VarC [] 0 (fzero F)
     else if this = t then mk VarT [] 0 (fzero F)
     else
       bnd (mapM (\<lambda>i. bd i x y t c) (inputs n)) (\<lambda>newInputs.
       mk (op n) newInputs (ival n) (fval n)))"

fun bind :: "'f float_ops \<Rightarrow> nat \<Rightarrow> nat \<Rightarrow> nat \<Rightarrow> nat \<Rightarrow> nat \<Rightarrow> nat \<Rightarrow> ('f, nat) M" where
  "bind F 0 this x y t c = out_of_fuel"
| "bind F (Suc k) this x y t c = bind_body F (make F k) (bind F k) this x y t c"

subsection \<open>Running the model\<close>

text \<open>
  To run the model on concrete graphs the float operations are instantiated with exact
  arithmetic on rationals. This is not the arithmetic of C floats: nothing is rounded, a
  division by zero gives 0 instead of an infinity or a NaN, and the conversion of a
  float out of the range of \<open>int\<close> wraps modulo \<open>2^32\<close>. The graphs used below hold the
  floats 0, 1 and 2 only, and no theorem below evaluates an operation on which the two
  arithmetics differ. \<open>run\<close> starts a program in the empty graph and keeps what it
  returns.
\<close>

definition exact_ops :: "rat float_ops" where
  "exact_ops =
     \<lparr>fadd = (+), fsub = (-), fmul = (*), fdiv = (/), fzero = 0, fone = 1,
      float_of_int = (\<lambda>w. of_int (sint w)),
      int_of_float = (\<lambda>q. word_of_int (if q \<ge> 0 then \<lfloor>q\<rfloor> else \<lceil>q\<rceil>))\<rparr>"

definition run :: "('f, 'a) M \<Rightarrow> 'a result" where
  "run m = (case m empty_graph of
              Ok (x, g) \<Rightarrow> Ok x
            | Fatal \<Rightarrow> Fatal
            | Undefined \<Rightarrow> Undefined
            | OutOfFuel \<Rightarrow> OutOfFuel)"

section \<open>Invariants of the graph\<close>

text \<open>
  What every graph built by the factory satisfies: the inputs of a node were made
  before the node; the dependencies of a node are its own flag and those of its inputs;
  a constant has no inputs; a \<open>Plus\<close> or \<open>Minus\<close> has two inputs, a \<open>PlusImm\<close> one,
  and each of them depends on something; and the tables of constants point to constants
  of their key.
\<close>

definition is_sum :: "OpCode \<Rightarrow> bool" where
  "is_sum opcode = (opcode = Plus \<or> opcode = Minus \<or> opcode = PlusImm)"

definition node_ok :: "'f IRNode list \<Rightarrow> nat \<Rightarrow> bool" where
  "node_ok ns i =
     ((\<forall>j \<in> set (inputs (ns ! i)). j < i) \<and>
      deps (ns ! i) = own_dep (op (ns ! i)) \<union> (\<Union>j \<in> set (inputs (ns ! i)). deps (ns ! j)) \<and>
      (op (ns ! i) = Const \<longrightarrow> inputs (ns ! i) = []) \<and>
      (op (ns ! i) = Plus \<or> op (ns ! i) = Minus \<longrightarrow> length (inputs (ns ! i)) = 2) \<and>
      (op (ns ! i) = PlusImm \<longrightarrow> length (inputs (ns ! i)) = 1) \<and>
      (is_sum (op (ns ! i)) \<longrightarrow> deps (ns ! i) \<noteq> {}))"

definition tables_ok :: "'f graph \<Rightarrow> bool" where
  "tables_ok g =
     ((\<forall>v p. intInstances g v = Some p \<longrightarrow>
         p < length (allNodes g) \<and> op (allNodes g ! p) = Const \<and>
         type (allNodes g ! p) = IntT \<and> ival (allNodes g ! p) = v) \<and>
      (\<forall>v p. floatInstances g v = Some p \<longrightarrow>
         p < length (allNodes g) \<and> op (allNodes g ! p) = Const \<and>
         type (allNodes g ! p) = Float \<and> fval (allNodes g ! p) = v) \<and>
      (\<forall>v p. varInstances g v = Some p \<longrightarrow>
         p < length (allNodes g) \<and> op (allNodes g ! p) = v))"

definition invariant :: "'f graph \<Rightarrow> bool" where
  "invariant g = ((\<forall>i < length (allNodes g). node_ok (allNodes g) i) \<and> tables_ok g)"

text \<open>
  A later graph extends an earlier one: the nodes of the earlier graph are still there,
  unchanged but for their outputs, and so are the entries of the tables.
\<close>

definition same_node :: "'f IRNode \<Rightarrow> 'f IRNode \<Rightarrow> bool" where
  "same_node n n' =
     (type n' = type n \<and> op n' = op n \<and> inputs n' = inputs n \<and> ival n' = ival n \<and>
      fval n' = fval n \<and> deps n' = deps n \<and> level n' = level n \<and> reg n' = reg n \<and>
      width n' = width n)"

definition extends :: "'f graph \<Rightarrow> 'f graph \<Rightarrow> bool" where
  "extends g g' =
     (length (allNodes g) \<le> length (allNodes g') \<and>
      (\<forall>i < length (allNodes g). same_node (allNodes g ! i) (allNodes g' ! i)) \<and>
      (\<forall>v p. intInstances g v = Some p \<longrightarrow> intInstances g' v = Some p) \<and>
      (\<forall>v p. floatInstances g v = Some p \<longrightarrow> floatInstances g' v = Some p) \<and>
      (\<forall>v p. varInstances g v = Some p \<longrightarrow> varInstances g' v = Some p))"

definition preserves :: "('f, 'a) M \<Rightarrow> bool" where
  "preserves m =
     (\<forall>g r g'. invariant g \<longrightarrow> m g = Ok (r, g') \<longrightarrow> invariant g' \<and> extends g g')"

text \<open>
  \<open>refines m m'\<close>: wherever the computation \<open>m\<close> does not run out of fuel, \<open>m'\<close> does
  what \<open>m\<close> does. More fuel refines less fuel.
\<close>

definition refines :: "('f, 'a) M \<Rightarrow> ('f, 'a) M \<Rightarrow> bool" where
  "refines m m' = (\<forall>g. m g = OutOfFuel \<or> m' g = m g)"

text \<open>
  \<open>leads_to F g g'\<close>: calls of the factory and of the transformations lead from the
  graph \<open>g\<close> to the graph \<open>g'\<close>. The reachable graphs are those that the empty graph
  leads to. (The collector and \<open>clearAll\<close>, which delete nodes, are not among the calls.)
\<close>

inductive leads_to :: "'f float_ops \<Rightarrow> 'f graph \<Rightarrow> 'f graph \<Rightarrow> bool"
  for F :: "'f float_ops" and g :: "'f graph" where
  here: "leads_to F g g"
| by_make_float: "leads_to F g g1 \<Longrightarrow> make_float v g1 = Ok (p, g2) \<Longrightarrow> leads_to F g g2"
| by_make_int: "leads_to F g g1 \<Longrightarrow> make_int F v g1 = Ok (p, g2) \<Longrightarrow> leads_to F g g2"
| by_make:
    "leads_to F g g1 \<Longrightarrow> make F k opcode ins iv fv g1 = Ok (p, g2) \<Longrightarrow> leads_to F g g2"
| by_as: "leads_to F g g1 \<Longrightarrow> as_type F k this t g1 = Ok (p, g2) \<Longrightarrow> leads_to F g g2"
| by_rebalanceSum:
    "leads_to F g g1 \<Longrightarrow> rebalanceSum F k this g1 = Ok (p, g2) \<Longrightarrow> leads_to F g g2"
| by_substitute:
    "leads_to F g g1 \<Longrightarrow> substitute F k this var val g1 = Ok (p, g2) \<Longrightarrow> leads_to F g g2"
| by_bind:
    "leads_to F g g1 \<Longrightarrow> bind F k this x y vt c g1 = Ok (p, g2) \<Longrightarrow> leads_to F g g2"

definition reachable :: "'f float_ops \<Rightarrow> 'f graph \<Rightarrow> bool" where
  "reachable F g = leads_to F empty_graph g"

text \<open>A program made of such calls.\<close>

definition builds :: "'f float_ops \<Rightarrow> ('f, 'a) M \<Rightarrow> bool" where
  "builds F m = (\<forall>g r g'. m g = Ok (r, g') \<longrightarrow> leads_to F g g')"

text \<open>The terms that \<open>collectSum\<close> appends cover the dependencies of the node.\<close>

definition covers :: "'f graph \<Rightarrow> nat \<Rightarrow> 'f graph \<Rightarrow> (nat \<times> bool) list \<Rightarrow> bool" where
  "covers g this g' new =
     ((\<forall>tm \<in> set new. fst tm < length (allNodes g')) \<and>
      deps (allNodes g ! this) \<subseteq> (\<Union>tm \<in> set new. deps (allNodes g' ! fst tm)))"

text \<open>The constant of an int sum, as a sum over the constant terms.\<close>

definition signed_ival :: "'f graph \<Rightarrow> nat \<times> bool \<Rightarrow> int32" where
  "signed_ival g tm = (if snd tm then ival (allNodes g ! fst tm) else - ival (allNodes g ! fst tm))"

subsection \<open>Example graphs\<close>

text \<open>The sum \<open>Plus(make(1), Plus(VarX, make(2)))\<close>, and the graph that holds it.\<close>

definition example_sum :: "(rat, nat) M" where
  "example_sum =
     bnd (make_int exact_ops 1) (\<lambda>c1.
     bnd (make_int exact_ops 2) (\<lambda>c2.
     bnd (make exact_ops 1 VarX [] 0 0) (\<lambda>x.
     bnd (make exact_ops 2 Plus [x, c2] 0 0) (\<lambda>s.
     make exact_ops 2 Plus [c1, s] 0 0))))"

definition example_graph :: "rat graph" where
  "example_graph = (case example_sum empty_graph of Ok (r, g) \<Rightarrow> g | _ \<Rightarrow> empty_graph)"

text \<open>A node of type Bool and a node of type Int.\<close>

definition bool_and_int :: "(rat, nat \<times> nat) M" where
  "bool_and_int =
     bnd (make_float 1) (\<lambda>c1.
     bnd (make_float 2) (\<lambda>c2.
     bnd (make exact_ops 2 LT [c1, c2] 0 0) (\<lambda>b.
     bnd (make exact_ops 1 VarX [] 0 0) (\<lambda>x. ret (b, x)))))"

text \<open>The graph that holds the float constants 1 and 2.\<close>

definition constants_graph :: "rat graph" where
  "constants_graph =
     (case bnd (make_float 1) (\<lambda>one. make_float 2) empty_graph of
        Ok (r, g) \<Rightarrow> g
      | _ \<Rightarrow> empty_graph)"

text \<open>
  An \<open>And\<close> node whose guard is an \<open>Or\<close> of two comparisons that depend on \<open>x\<close>:
  \<open>make(And, make(Or, b, b), make(VarY))\<close> with
  \<open>b = make(LT, make(IntToFloat, make(VarX)), make(1.0f))\<close>.
\<close>

definition and_of_or :: "(rat, nat) M" where
  "and_of_or =
     bnd (make exact_ops 1 VarX [] 0 0) (\<lambda>x.
     bnd (make exact_ops 2 IntToFloat [x] 0 0) (\<lambda>fx.
     bnd (make_float 1) (\<lambda>c1.
     bnd (make exact_ops 2 LT [fx, c1] 0 0) (\<lambda>b.
     bnd (make exact_ops 2 Or [b, b] 0 0) (\<lambda>orn.
     bnd (make exact_ops 1 VarY [] 0 0) (\<lambda>y.
     make exact_ops 2 And [orn, y] 0 0))))))"

text \<open>
  A \<open>PlusImm\<close> node over a Float sum: \<open>make(PlusImm, make(Plus, fx, make(2.0f)), 3)\<close> with
  \<open>fx = make(IntToFloat, make(VarX))\<close>. The program returns \<open>fx\<close> and the node.
\<close>

definition int_over_float_sum :: "(rat, nat \<times> nat) M" where
  "int_over_float_sum =
     bnd (make exact_ops 1 VarX [] 0 0) (\<lambda>x.
     bnd (make exact_ops 2 IntToFloat [x] 0 0) (\<lambda>fx.
     bnd (make_float 2) (\<lambda>c2.
     bnd (make exact_ops 2 Plus [fx, c2] 0 0) (\<lambda>s.
     bnd (make exact_ops 2 PlusImm [s] 3 0) (\<lambda>n. ret (fx, n))))))"

section \<open>Evaluation\<close>

text \<open>
  Rewrite rules that run a program on a concrete graph: a sequence is unfolded once its
  graph is known, and its continuation is left alone until the first part has a result.
\<close>

lemma bnd_apply:
  "bnd m f g = (case m g of Ok (x, g') \<Rightarrow> f x g' | Fatal \<Rightarrow> Fatal
                | Undefined \<Rightarrow> Undefined | OutOfFuel \<Rightarrow> OutOfFuel)"
  by (simp add: bnd_def)

lemma orelse_apply:
  "orelse m k g = bnd m (\<lambda>r. case r of Some p \<Rightarrow> ret p | None \<Rightarrow> k) g"
  by (simp add: orelse_def)

lemma otherwise_apply:
  "otherwise m k g = bnd m (\<lambda>r. case r of Some p \<Rightarrow> ret (Some p) | None \<Rightarrow> k) g"
  by (simp add: otherwise_def)

lemma some_apply: "some m g = bnd m (\<lambda>p. ret (Some p)) g"
  by (simp add: some_def)

lemma ret_apply: "ret x g = Ok (x, g)"
  by (simp add: ret_def)

lemma bnd_block: "bnd m f = bnd m f"
  by simp

lemma orelse_block: "orelse m k = orelse m k"
  by simp

lemma otherwise_block: "otherwise m k = otherwise m k"
  by simp

lemma some_block: "some m = some m"
  by simp

lemmas blocks = bnd_block orelse_block otherwise_block some_block

lemma exact_sel:
  "fadd exact_ops = (+)" "fsub exact_ops = (-)" "fmul exact_ops = (*)"
  "fdiv exact_ops = (/)" "fzero exact_ops = 0" "fone exact_ops = 1"
  "float_of_int exact_ops = (\<lambda>w. of_int (sint w))"
  "int_of_float exact_ops = (\<lambda>q. word_of_int (if q \<ge> 0 then \<lfloor>q\<rfloor> else \<lceil>q\<rceil>))"
  by (simp_all add: exact_ops_def)

text \<open>Fuel written as a numeral.\<close>

lemma fuel:
  "make F (numeral v) opcode ins iv fv =
     make_body F (make F (pred_numeral v)) (as_type F (pred_numeral v))
       (rebalanceSum F (pred_numeral v)) opcode ins iv fv"
  "as_type F (numeral v) this t = as_body F (make F (pred_numeral v)) this t"
  "rebalanceSum F (numeral v) this =
     rebalance_body F (make F (pred_numeral v)) (collectSum F (pred_numeral v)) this"
  "collectSum F (numeral v) this positive terms =
     collect_body F (collectSum F (pred_numeral v)) this positive terms"
  "substitute F (numeral v) this var val =
     substitute_body F (make F (pred_numeral v)) (substitute F (pred_numeral v)) this var val"
  "bind F (numeral v) this x y vt c =
     bind_body F (make F (pred_numeral v)) (bind F (pred_numeral v)) this x y vt c"
  by (simp_all add: numeral_eq_Suc)

lemmas ev =
  bnd_apply orelse_apply otherwise_apply some_apply ret_apply
  panic_def assert_def undefined_behaviour_def out_of_fuel_def node_def elem_def
  float_node_def int_node_def make_float_def make_int_def own_dep_def level_of_def
  add_output_def new_node_def operand_def coerce_def either_float_def infer_type_def
  fold_constants_def noop_def divide_hoist_def select_xab_def by_level_def distribute_def
  reassociate_def rebalance_inputs_def variables_def fuse_load_def fuse_times_def cse_def
  make_body_def as_body_def collect_body_def swap_if_greater_def sort_by_level_def
  levels_def float_constant_def int_constant_def add_term_def rebalance_body_def
  substitute_body_def bind_body_def exact_sel empty_graph_def fuel Let_def

section \<open>The invariants are kept\<close>

lemma same_node_refl: "same_node n n"
  by (simp add: same_node_def)

lemma same_node_trans: "same_node a b \<Longrightarrow> same_node b c \<Longrightarrow> same_node a c"
  by (simp add: same_node_def)

lemma extends_refl: "extends g g"
  by (simp add: extends_def same_node_refl)

lemma extends_trans: "extends a b \<Longrightarrow> extends b c \<Longrightarrow> extends a c"
  unfolding extends_def
  by (meson le_trans less_le_trans same_node_trans)

lemma preservesI:
  "(\<And>g r g'. invariant g \<Longrightarrow> m g = Ok (r, g') \<Longrightarrow> invariant g' \<and> extends g g') \<Longrightarrow> preserves m"
  by (simp add: preserves_def)

lemma preservesD:
  "preserves m \<Longrightarrow> invariant g \<Longrightarrow> m g = Ok (r, g') \<Longrightarrow> invariant g' \<and> extends g g'"
  by (simp add: preserves_def)

lemma bnd_Ok:
  "bnd m f g = Ok (r, g') \<longleftrightarrow> (\<exists>x g1. m g = Ok (x, g1) \<and> f x g1 = Ok (r, g'))"
  by (auto simp: bnd_def split: result.splits)

lemma preserves_ret: "preserves (ret x)"
  by (simp add: preserves_def ret_def extends_refl)

lemma preserves_fail:
  "preserves panic" "preserves undefined_behaviour" "preserves out_of_fuel"
  by (simp_all add: preserves_def panic_def undefined_behaviour_def out_of_fuel_def)

lemma preserves_bnd:
  "preserves m \<Longrightarrow> (\<And>x. preserves (f x)) \<Longrightarrow> preserves (bnd m f)"
  unfolding preserves_def bnd_Ok
  by (meson extends_trans)

lemma preserves_if:
  "(c \<Longrightarrow> preserves a) \<Longrightarrow> (\<not> c \<Longrightarrow> preserves b) \<Longrightarrow> preserves (if c then a else b)"
  by simp

lemma preserves_case_option:
  "preserves a \<Longrightarrow> (\<And>x. preserves (f x)) \<Longrightarrow> preserves (case r of None \<Rightarrow> a | Some x \<Rightarrow> f x)"
  by (cases r) simp_all

lemma preserves_case_prod:
  "(\<And>a b. preserves (f a b)) \<Longrightarrow> preserves (case p of (a, b) \<Rightarrow> f a b)"
  by (cases p) simp

lemma preserves_case_sum:
  "(\<And>x. preserves (f x)) \<Longrightarrow> (\<And>y. preserves (h y)) \<Longrightarrow>
   preserves (case r of Inl x \<Rightarrow> f x | Inr y \<Rightarrow> h y)"
  by (cases r) simp_all

lemma preserves_assert: "preserves (assert c)"
  by (simp add: assert_def preserves_ret preserves_fail)

lemma preserves_node: "preserves (node p)"
  by (auto simp: preserves_def node_def extends_refl split: if_splits)

lemma preserves_elem: "preserves (elem xs i)"
  by (simp add: elem_def preserves_ret preserves_fail)

lemma preserves_levels: "preserves levels"
  by (auto simp: preserves_def levels_def extends_refl)

lemma preserves_some: "preserves m \<Longrightarrow> preserves (some m)"
  unfolding some_def by (intro preserves_bnd preserves_ret)

lemma preserves_orelse: "preserves m \<Longrightarrow> preserves k \<Longrightarrow> preserves (orelse m k)"
  unfolding orelse_def by (intro preserves_bnd preserves_case_option preserves_ret)

lemma preserves_otherwise: "preserves m \<Longrightarrow> preserves k \<Longrightarrow> preserves (otherwise m k)"
  unfolding otherwise_def by (intro preserves_bnd preserves_case_option preserves_ret)

lemma preserves_mapM: "(\<And>x. preserves (f x)) \<Longrightarrow> preserves (mapM f xs)"
  by (induction xs) (auto intro!: preserves_bnd preserves_ret)

lemma preserves_foldM: "(\<And>a x. preserves (f a x)) \<Longrightarrow> preserves (foldM f a xs)"
  by (induction xs arbitrary: a) (auto intro!: preserves_bnd preserves_ret)

lemma node_ok_append:
  "i < length ns \<Longrightarrow> node_ok ns i \<Longrightarrow> node_ok (ns @ ms) i"
proof -
  assume i: "i < length ns" and ok: "node_ok ns i"
  have old: "(ns @ ms) ! j = ns ! j" if "j < length ns" for j
    using that by (simp add: nth_append)
  from ok have lt: "\<forall>j \<in> set (inputs (ns ! i)). j < i"
    by (simp add: node_ok_def)
  then have U: "(\<Union>j \<in> set (inputs (ns ! i)). deps ((ns @ ms) ! j)) =
             (\<Union>j \<in> set (inputs (ns ! i)). deps (ns ! j))"
    using i by (intro SUP_cong refl) (auto simp: old)
  show ?thesis
    unfolding node_ok_def old[OF i] U using ok[unfolded node_ok_def] .
qed

lemma node_ok_const:
  "op n = Const \<Longrightarrow> inputs n = [] \<Longrightarrow> deps n = {} \<Longrightarrow> node_ok (ns @ [n]) (length ns)"
  by (simp add: node_ok_def own_dep_def is_sum_def)

lemma tables_okD:
  assumes "tables_ok g"
  shows "intInstances g v = Some p \<Longrightarrow>
           p < length (allNodes g) \<and> op (allNodes g ! p) = Const \<and>
           type (allNodes g ! p) = IntT \<and> ival (allNodes g ! p) = v"
    and "floatInstances g w = Some p \<Longrightarrow>
           p < length (allNodes g) \<and> op (allNodes g ! p) = Const \<and>
           type (allNodes g ! p) = Float \<and> fval (allNodes g ! p) = w"
    and "varInstances g c = Some p \<Longrightarrow> p < length (allNodes g) \<and> op (allNodes g ! p) = c"
  using assms by (simp_all add: tables_ok_def)

lemma preserves_make_int: "preserves (make_int F v)"
proof (rule preservesI)
  fix g r g'
  assume inv: "invariant g" and run: "make_int F v g = Ok (r, g')"
  show "invariant g' \<and> extends g g'"
  proof (cases "intInstances g v")
    case (Some p)
    with run have "g' = g" by (simp add: make_int_def)
    with inv show ?thesis by (simp add: extends_refl)
  next
    case None
    with run have g': "g' = g\<lparr>allNodes := allNodes g @ [int_node F v],
        intInstances := (intInstances g)(v \<mapsto> length (allNodes g))\<rparr>"
      by (auto simp: make_int_def)
    have ext: "extends g g'"
      using None by (auto simp: g' extends_def nth_append same_node_refl)
    have "node_ok (allNodes g') i" if "i < length (allNodes g')" for i
    proof (cases "i < length (allNodes g)")
      case True
      with inv show ?thesis by (simp add: g' invariant_def node_ok_append)
    next
      case False
      with that have "i = length (allNodes g)" by (simp add: g')
      then show ?thesis by (simp add: g' node_ok_const int_node_def)
    qed
    moreover have "tables_ok g'"
    proof -
      from inv have t: "tables_ok g" by (simp add: invariant_def)
      have old: "(allNodes g @ ms) ! p = allNodes g ! p" if "p < length (allNodes g)" for p ms
        using that by (simp add: nth_append)
      have ti: "p < length (allNodes g') \<and> op (allNodes g' ! p) = Const \<and>
              type (allNodes g' ! p) = IntT \<and> ival (allNodes g' ! p) = w"
          if a: "intInstances g' w = Some p" for w p
          proof (cases "w = v")
            case True
            with a have "p = length (allNodes g)" by (simp add: g')
            then show ?thesis using True by (simp add: g' int_node_def)
          next
            case False
            with a have "intInstances g w = Some p" by (simp add: g')
            from tables_okD(1)[OF t this] show ?thesis by (simp add: g' old)
          qed
        have tf: "p < length (allNodes g') \<and> op (allNodes g' ! p) = Const \<and>
              type (allNodes g' ! p) = Float \<and> fval (allNodes g' ! p) = w"
          if a: "floatInstances g' w = Some p" for w p
          proof -
            from a have "floatInstances g w = Some p" by (simp add: g')
            from tables_okD(2)[OF t this] show ?thesis by (simp add: g' old)
          qed
        have tv: "p < length (allNodes g') \<and> op (allNodes g' ! p) = w"
          if "varInstances g' w = Some p" for w p
        proof -
          from that have "varInstances g w = Some p" by (simp add: g')
          from tables_okD(3)[OF t this] show ?thesis by (simp add: g' old)
        qed
      from ti tf tv show ?thesis
        unfolding tables_ok_def by blast
    qed
    ultimately show ?thesis using ext by (simp add: invariant_def)
  qed
qed

lemma preserves_make_float: "preserves (make_float v)"
proof (rule preservesI)
  fix g r g'
  assume inv: "invariant g" and run: "make_float v g = Ok (r, g')"
  show "invariant g' \<and> extends g g'"
  proof (cases "floatInstances g v")
    case (Some p)
    with run have "g' = g" by (simp add: make_float_def)
    with inv show ?thesis by (simp add: extends_refl)
  next
    case None
    with run have g': "g' = g\<lparr>allNodes := allNodes g @ [float_node v],
        floatInstances := (floatInstances g)(v \<mapsto> length (allNodes g))\<rparr>"
      by (auto simp: make_float_def)
    have ext: "extends g g'"
      using None by (auto simp: g' extends_def nth_append same_node_refl)
    have "node_ok (allNodes g') i" if "i < length (allNodes g')" for i
    proof (cases "i < length (allNodes g)")
      case True
      with inv show ?thesis by (simp add: g' invariant_def node_ok_append)
    next
      case False
      with that have "i = length (allNodes g)" by (simp add: g')
      then show ?thesis by (simp add: g' node_ok_const float_node_def)
    qed
    moreover have "tables_ok g'"
    proof -
      from inv have t: "tables_ok g" by (simp add: invariant_def)
      have old: "(allNodes g @ ms) ! p = allNodes g ! p" if "p < length (allNodes g)" for p ms
        using that by (simp add: nth_append)
      have ti: "p < length (allNodes g') \<and> op (allNodes g' ! p) = Const \<and>
              type (allNodes g' ! p) = IntT \<and> ival (allNodes g' ! p) = w"
          if a: "intInstances g' w = Some p" for w p
          proof -
            from a have "intInstances g w = Some p" by (simp add: g')
            from tables_okD(1)[OF t this] show ?thesis by (simp add: g' old)
          qed
        have tf: "p < length (allNodes g') \<and> op (allNodes g' ! p) = Const \<and>
              type (allNodes g' ! p) = Float \<and> fval (allNodes g' ! p) = w"
          if a: "floatInstances g' w = Some p" for w p
          proof (cases "w = v")
            case True
            with a have "p = length (allNodes g)" by (simp add: g')
            then show ?thesis using True by (simp add: g' float_node_def)
          next
            case False
            with a have "floatInstances g w = Some p" by (simp add: g')
            from tables_okD(2)[OF t this] show ?thesis by (simp add: g' old)
          qed
        have tv: "p < length (allNodes g') \<and> op (allNodes g' ! p) = w"
          if "varInstances g' w = Some p" for w p
        proof -
          from that have "varInstances g w = Some p" by (simp add: g')
          from tables_okD(3)[OF t this] show ?thesis by (simp add: g' old)
        qed
      from ti tf tv show ?thesis
        unfolding tables_ok_def by blast
    qed
    ultimately show ?thesis using ext by (simp add: invariant_def)
  qed
qed

lemma node_ok_same:
  assumes ok: "node_ok ns i" and i: "i < length ns"
    and same: "\<And>j. j < length ns \<Longrightarrow> same_node (ns ! j) (ns' ! j)"
  shows "node_ok ns' i"
proof -
  from same[OF i] have f: "op (ns' ! i) = op (ns ! i)" "inputs (ns' ! i) = inputs (ns ! i)"
    "deps (ns' ! i) = deps (ns ! i)"
    by (simp_all add: same_node_def)
  from ok have lt: "\<forall>j \<in> set (inputs (ns ! i)). j < i"
    by (simp add: node_ok_def)
  have "deps (ns' ! j) = deps (ns ! j)" if "j \<in> set (inputs (ns ! i))" for j
  proof -
    from lt that i have "j < length ns" by fastforce
    from same[OF this] show ?thesis by (simp add: same_node_def)
  qed
  then have U: "(\<Union>j \<in> set (inputs (ns ! i)). deps (ns' ! j)) =
             (\<Union>j \<in> set (inputs (ns ! i)). deps (ns ! j))"
    by (intro SUP_cong refl)
  show ?thesis
    unfolding node_ok_def f U using ok[unfolded node_ok_def] .
qed

lemma node_Ok:
  "node p g = Ok (n, g') \<longleftrightarrow> g' = g \<and> p < length (allNodes g) \<and> n = allNodes g ! p"
  by (auto simp: node_def)

lemma ret_Ok: "ret x g = Ok (y, g') \<longleftrightarrow> y = x \<and> g' = g"
  by (auto simp: ret_def)

lemma mapM_node:
  "mapM node xs g = Ok (ns, g') \<longleftrightarrow>
     g' = g \<and> (\<forall>i \<in> set xs. i < length (allNodes g)) \<and> ns = map ((!) (allNodes g)) xs"
proof (induction xs arbitrary: ns)
  case Nil
  show ?case by (auto simp: ret_Ok)
next
  case (Cons x xs)
  show ?case
    by (auto simp: bnd_Ok Cons node_Ok ret_Ok)
qed

lemma length_add_outputs: "length (foldl (add_output r) ns is) = length ns"
  by (induction "is" arbitrary: ns) (simp_all add: add_output_def)

lemma same_add_outputs:
  "j < length ns \<Longrightarrow> same_node (ns ! j) (foldl (add_output r) ns is ! j)"
proof (induction "is" arbitrary: ns)
  case Nil
  show ?case by (simp add: same_node_refl)
next
  case (Cons i "is")
  have "same_node (ns ! j) (add_output r ns i ! j)"
    using Cons.prems by (cases "i = j") (simp_all add: add_output_def same_node_def)
  moreover have "same_node (add_output r ns i ! j) (foldl (add_output r) (add_output r ns i) is ! j)"
    using Cons.prems by (intro Cons.IH) (simp add: add_output_def)
  ultimately show ?case
    by (simp add: same_node_trans)
qed

lemma foldl_deps: "foldl (\<lambda>d n. d \<union> deps n) d ns = d \<union> (\<Union>n \<in> set ns. deps n)"
  by (induction ns arbitrary: d) auto

lemma new_node_Ok:
  assumes "new_node t opcode input iv fv g = Ok (r, g')"
  shows "r = length (allNodes g)"
    and "\<forall>i \<in> set input. i < length (allNodes g)"
    and "allNodes g' = foldl (add_output r) (allNodes g) input @
           [\<lparr>type = t, op = opcode, inputs = input, outputs = [], ival = iv, fval = fv,
             deps = own_dep opcode \<union> (\<Union>i \<in> set input. deps (allNodes g ! i)),
             level = level_of (own_dep opcode \<union> (\<Union>i \<in> set input. deps (allNodes g ! i))),
             reg = - 1, width = 1\<rparr>]"
    and "intInstances g' = intInstances g" "floatInstances g' = floatInstances g"
    and "varInstances g' = varInstances g"
  using assms
  by (auto simp: new_node_def bnd_Ok mapM_node Let_def foldl_deps)

lemma new_node_invariant:
  assumes inv: "invariant g" and run: "new_node t opcode input iv fv g = Ok (r, g')"
    and nc: "opcode \<noteq> Const"
    and a2: "opcode = Plus \<or> opcode = Minus \<Longrightarrow> length input = 2"
    and a1: "opcode = PlusImm \<Longrightarrow> length input = 1"
    and dp: "is_sum opcode \<Longrightarrow> \<exists>i \<in> set input. deps (allNodes g ! i) \<noteq> {}"
  shows "invariant g' \<and> extends g g'"
proof -
  note N = new_node_Ok[OF run]
  let ?old = "foldl (add_output r) (allNodes g) input"
  have len: "length ?old = length (allNodes g)" by (rule length_add_outputs)
  have nth_old: "allNodes g' ! j = ?old ! j" if "j < length (allNodes g)" for j
    using that by (simp add: N(3) nth_append len)
  have same: "same_node (allNodes g ! j) (allNodes g' ! j)" if "j < length (allNodes g)" for j
    using that by (simp add: nth_old same_add_outputs)
  have lenle: "length (allNodes g) \<le> length (allNodes g')"
    by (simp add: N(3) len)
  have ext: "extends g g'"
    by (simp add: extends_def same lenle N(4,5,6))
  have "node_ok (allNodes g') i" if "i < length (allNodes g')" for i
  proof (cases "i < length (allNodes g)")
    case True
    with inv have "node_ok (allNodes g) i" by (simp add: invariant_def)
    from this True same show ?thesis by (rule node_ok_same)
  next
    case False
    with that have i: "i = r" by (simp add: N length_add_outputs)
    have new: "allNodes g' ! r =
        \<lparr>type = t, op = opcode, inputs = input, outputs = [], ival = iv, fval = fv,
          deps = own_dep opcode \<union> (\<Union>i \<in> set input. deps (allNodes g ! i)),
          level = level_of (own_dep opcode \<union> (\<Union>i \<in> set input. deps (allNodes g ! i))),
          reg = - 1, width = 1\<rparr>"
      by (simp add: N(3) N(1) nth_append length_add_outputs)
    have "deps (allNodes g' ! j) = deps (allNodes g ! j)" if "j \<in> set input" for j
      using same[of j] N(2) that by (simp add: same_node_def)
    then have U: "(\<Union>j \<in> set input. deps (allNodes g' ! j)) =
                  (\<Union>j \<in> set input. deps (allNodes g ! j))"
      by (intro SUP_cong refl)
    have sel: "op (allNodes g' ! r) = opcode" "inputs (allNodes g' ! r) = input"
      "deps (allNodes g' ! r) = own_dep opcode \<union> (\<Union>j \<in> set input. deps (allNodes g ! j))"
      by (simp_all add: new)
    have ne: "own_dep opcode \<union> (\<Union>j \<in> set input. deps (allNodes g ! j)) \<noteq> {}"
      if "is_sum opcode"
      using dp[OF that] by blast
    have lt: "\<forall>j \<in> set input. j < r"
      using N(2) by (simp add: N(1))
    show ?thesis
      unfolding i node_ok_def sel U
      using lt nc a2 a1 ne by blast
  qed
  moreover have "tables_ok g'"
  proof -
    from inv have t: "tables_ok g" by (simp add: invariant_def)
    have f: "p < length (allNodes g') \<and> op (allNodes g' ! p) = op (allNodes g ! p) \<and>
          type (allNodes g' ! p) = type (allNodes g ! p) \<and>
          ival (allNodes g' ! p) = ival (allNodes g ! p) \<and>
          fval (allNodes g' ! p) = fval (allNodes g ! p)"
      if "p < length (allNodes g)" for p
      using same[OF that] that lenle by (simp add: same_node_def)
    have "p < length (allNodes g') \<and> op (allNodes g' ! p) = Const \<and>
          type (allNodes g' ! p) = IntT \<and> ival (allNodes g' ! p) = v"
      if "intInstances g v = Some p" for v p
      using tables_okD(1)[OF t that] f[of p] by simp
    moreover have "p < length (allNodes g') \<and> op (allNodes g' ! p) = Const \<and>
          type (allNodes g' ! p) = Float \<and> fval (allNodes g' ! p) = v"
      if "floatInstances g v = Some p" for v p
      using tables_okD(2)[OF t that] f[of p] by simp
    moreover have "p < length (allNodes g') \<and> op (allNodes g' ! p) = v"
      if "varInstances g v = Some p" for v p
      using tables_okD(3)[OF t that] f[of p] by simp
    ultimately show ?thesis
      unfolding tables_ok_def N(4,5,6) by blast
  qed
  ultimately show ?thesis using ext by (simp add: invariant_def)
qed

lemma preserves_new_node:
  "opcode \<noteq> Const \<Longrightarrow> \<not> is_sum opcode \<Longrightarrow> preserves (new_node t opcode input iv fv)"
  by (rule preservesI) (rule new_node_invariant, auto simp: is_sum_def)

lemmas preserves_intros =
  preserves_ret preserves_fail preserves_bnd preserves_if preserves_case_option
  preserves_case_prod preserves_case_sum preserves_assert preserves_node preserves_elem
  preserves_levels preserves_some preserves_orelse preserves_otherwise preserves_mapM
  preserves_foldM preserves_make_int preserves_make_float

lemma preserves_operand: "preserves (operand ins i)"
  unfolding operand_def by (intro preserves_intros)

lemma preserves_coerce:
  "(\<And>p t. preserves (asf p t)) \<Longrightarrow> preserves (coerce asf t i ins)"
  unfolding coerce_def by (intro preserves_intros)

lemma preserves_either_float: "preserves (either_float ins)"
  unfolding either_float_def by (intro preserves_intros preserves_operand)

lemma preserves_infer_type:
  "(\<And>p t. preserves (asf p t)) \<Longrightarrow> preserves (infer_type asf opcode ins)"
  unfolding infer_type_def Let_def
  by (intro preserves_intros preserves_operand preserves_either_float preserves_coerce)

lemma preserves_allInputsConst: "preserves (allInputsConst ins)"
  by (induction ins) (auto intro!: preserves_intros)

lemma preserves_fold_constants: "preserves (fold_constants F opcode t ins iv)"
  unfolding fold_constants_def
  by (intro preserves_intros preserves_operand preserves_allInputsConst)

lemma preserves_noop: "preserves (noop opcode ins)"
  unfolding noop_def by (intro preserves_intros)

lemma preserves_divide_hoist:
  "(\<And>opcode ins iv fv. preserves (mk opcode ins iv fv)) \<Longrightarrow>
   preserves (divide_hoist F mk opcode ins)"
  unfolding divide_hoist_def by (intro preserves_intros preserves_operand)

lemma preserves_select_xab: "preserves (select_xab which ix ia ins)"
  unfolding select_xab_def by (intro preserves_intros preserves_operand)

lemma preserves_by_level:
  "(\<And>x a b. preserves (k x a b)) \<Longrightarrow> preserves (by_level k sel)"
  unfolding by_level_def Let_def by (intro preserves_intros)

lemma preserves_distribute:
  "(\<And>opcode ins iv fv. preserves (mk opcode ins iv fv)) \<Longrightarrow>
   preserves (distribute F mk opcode ins)"
  unfolding distribute_def
  by (intro preserves_intros preserves_operand preserves_select_xab preserves_by_level)

lemma preserves_reassociate:
  "(\<And>opcode ins iv fv. preserves (mk opcode ins iv fv)) \<Longrightarrow>
   preserves (reassociate F mk opcode ins)"
  unfolding reassociate_def
  by (intro preserves_intros preserves_select_xab preserves_by_level)

lemma preserves_rebalance_inputs:
  "(\<And>p. preserves (rb p)) \<Longrightarrow> preserves (rebalance_inputs rb opcode ins)"
  unfolding rebalance_inputs_def by (intro preserves_intros)

lemma preserves_fuse_load:
  "(\<And>opcode ins iv fv. preserves (mk opcode ins iv fv)) \<Longrightarrow>
   preserves (fuse_load F mk opcode ins iv)"
  unfolding fuse_load_def by (intro preserves_intros preserves_operand)

lemma preserves_fuse_times:
  "(\<And>opcode ins iv fv. preserves (mk opcode ins iv fv)) \<Longrightarrow>
   preserves (fuse_times F mk opcode t ins)"
  unfolding fuse_times_def by (intro preserves_intros)

lemma preserves_candidates: "preserves (candidates opcode t ins iv fv cs)"
  by (induction cs) (auto intro!: preserves_intros)

lemma preserves_cse: "preserves (cse opcode t ins iv fv)"
  unfolding cse_def by (intro preserves_intros preserves_operand preserves_candidates)

lemma orelse_Ok:
  "orelse m k g = Ok (r, g') \<longleftrightarrow>
     m g = Ok (Some r, g') \<or> (\<exists>g1. m g = Ok (None, g1) \<and> k g1 = Ok (r, g'))"
  by (auto simp: orelse_def bnd_Ok ret_Ok split: option.splits)

lemma some_Ok: "some m g = Ok (x, g') \<longleftrightarrow> (\<exists>p. x = Some p \<and> m g = Ok (p, g'))"
  by (auto simp: some_def bnd_Ok ret_Ok)

lemma elem_Ok: "elem xs i g = Ok (x, g') \<longleftrightarrow> g' = g \<and> i < length xs \<and> x = xs ! i"
  by (auto simp: elem_def ret_Ok undefined_behaviour_def)

lemma assert_Ok: "assert c g = Ok (x, g') \<longleftrightarrow> c \<and> g' = g"
  by (auto simp: assert_def ret_Ok panic_def)

lemma operand_Ok:
  "operand ins i g = Ok (n, g') \<longleftrightarrow>
     g' = g \<and> i < length ins \<and> ins ! i < length (allNodes g) \<and> n = allNodes g ! (ins ! i)"
  by (auto simp: operand_def bnd_Ok elem_Ok node_Ok)

lemma preserves_variables:
  assumes "opcode \<noteq> Const" "\<not> is_sum opcode"
  shows "preserves (variables F opcode t)"
proof (cases "opcode = VarX \<or> opcode = VarY \<or> opcode = VarT \<or> opcode = VarC")
  case False
  then show ?thesis
    unfolding variables_def using assms
    by (auto intro!: preserves_intros preserves_new_node)
next
  case True
  show ?thesis
  proof (rule preservesI)
    fix g r g'
    assume inv: "invariant g" and run: "variables F opcode t g = Ok (r, g')"
    show "invariant g' \<and> extends g g'"
    proof (cases "varInstances g opcode")
      case (Some p)
      with run True have "g' = g" by (auto simp: variables_def)
      with inv show ?thesis by (simp add: extends_refl)
    next
      case None
      with run True obtain p g1 where
        nn: "new_node t opcode [] 0 (fzero F) g = Ok (p, g1)" and
        g': "g' = g1\<lparr>varInstances := (varInstances g1)(opcode \<mapsto> p)\<rparr>"
        by (auto simp: variables_def bnd_Ok)
      from new_node_invariant[OF inv nn] assms True
      have inv1: "invariant g1" and ext1: "extends g g1"
        by (auto simp: is_sum_def)
      note N = new_node_Ok[OF nn]
      have p: "p < length (allNodes g1)" "op (allNodes g1 ! p) = opcode"
        by (simp_all add: N)
      from ext1 None N(6) have "extends g g'"
        by (auto simp: extends_def g')
      moreover have "invariant g'"
      proof -
        from inv1 have t: "tables_ok g1" by (simp add: invariant_def)
        have "tables_ok g'"
          unfolding tables_ok_def g' using tables_okD[OF t] p by auto
        with inv1 show ?thesis by (simp add: invariant_def g')
      qed
      ultimately show ?thesis by simp
    qed
  qed
qed

lemma candidates_state: "candidates opcode t ins iv fv cs g = Ok (x, g') \<Longrightarrow> g' = g"
  by (induction cs) (auto simp: ret_Ok bnd_Ok node_Ok split: if_splits)

lemma cse_state: "cse opcode t ins iv fv g = Ok (x, g') \<Longrightarrow> g' = g"
  by (auto simp: cse_def ret_Ok bnd_Ok operand_Ok split: if_splits dest: candidates_state)

lemma allInputsConst_Ok:
  "allInputsConst ins g = Ok (c, g') \<Longrightarrow>
     g' = g \<and> (c \<longleftrightarrow> (\<forall>i \<in> set ins. deps (allNodes g ! i) = {}))"
  by (induction ins) (auto simp: ret_Ok bnd_Ok node_Ok split: if_splits)

lemma fold_constants_None:
  assumes "fold_constants F opcode t ins iv g = Ok (None, g')" and "is_sum opcode" "ins \<noteq> []"
  shows "g' = g \<and> (\<exists>i \<in> set ins. deps (allNodes g ! i) \<noteq> {})"
  using assms
  by (auto simp: fold_constants_def bnd_Ok ret_Ok some_Ok is_sum_def
      split: if_splits dest!: allInputsConst_Ok)

lemma coerce_length: "coerce asf t i ins g = Ok (ins', g') \<Longrightarrow> length ins' = length ins"
  by (auto simp: coerce_def bnd_Ok ret_Ok)

lemma infer_type_sum:
  assumes "infer_type asf opcode ins g = Ok (x, g')" and "is_sum opcode"
  shows "\<exists>t ins'. x = Inr (t, ins') \<and> (opcode = Plus \<or> opcode = Minus \<longrightarrow> length ins' = 2) \<and>
           (opcode = PlusImm \<longrightarrow> length ins' = 1)"
  using assms
  by (auto simp: infer_type_def is_sum_def bnd_Ok ret_Ok assert_Ok Let_def
      dest!: coerce_length)

lemma make_body_sum:
  assumes "is_sum opcode"
  shows "make_body F mk asf rb opcode ins iv fv =
     bnd (infer_type asf opcode ins) (\<lambda>r.
     case r of
       Inl p \<Rightarrow> ret p
     | Inr (t, ins) \<Rightarrow>
         orelse (fold_constants F opcode t ins iv)
        (orelse (cse opcode t ins iv fv) (new_node t opcode ins iv fv)))"
proof -
  have [simp]: "orelse (ret None) k = k" for k :: "('a, 'b) M"
    by (rule ext) (simp add: orelse_def bnd_def ret_def)
  have [simp]: "bnd (ret x) f = f x" for x :: 'c and f :: "'c \<Rightarrow> ('a, 'd) M"
    by (rule ext) (simp add: bnd_def ret_def)
  have K: "orelse (noop opcode ins)
          (orelse (divide_hoist F mk opcode ins)
          (orelse (distribute F mk opcode ins)
          (orelse (reassociate F mk opcode ins)
          (bnd (rebalance_inputs rb opcode ins) (\<lambda>ins.
           orelse (variables F opcode t)
          (orelse (fuse_load F mk opcode ins iv)
          (orelse (fuse_times F mk opcode t ins)
          (orelse (cse opcode t ins iv fv)
          (new_node t opcode ins iv fv)))))))))
        = orelse (cse opcode t ins iv fv) (new_node t opcode ins iv fv)" for t ins
    using assms
    by (auto simp: is_sum_def noop_def divide_hoist_def distribute_def
        reassociate_def rebalance_inputs_def variables_def fuse_load_def fuse_times_def)
  show ?thesis
    unfolding make_body_def K ..
qed

lemma preserves_make_body:
  assumes mk: "\<And>opcode ins iv fv. preserves (mk opcode ins iv fv)"
    and asf: "\<And>p t. preserves (asf p t)"
    and rb: "\<And>p. preserves (rb p)"
  shows "preserves (make_body F mk asf rb opcode ins iv fv)"
proof (cases "is_sum opcode")
  case False
  show ?thesis
  proof (cases "opcode = Const")
    case True
    then show ?thesis
      by (simp add: preserves_def make_body_def infer_type_def bnd_def panic_def)
  next
    case nc: False
    show ?thesis
      unfolding make_body_def
      by (intro preserves_intros preserves_infer_type preserves_fold_constants preserves_noop
          preserves_divide_hoist preserves_distribute preserves_reassociate
          preserves_rebalance_inputs preserves_variables preserves_fuse_load
          preserves_fuse_times preserves_cse preserves_new_node mk asf rb nc False)
  qed
next
  case True
  show ?thesis
  proof (rule preservesI)
    fix g r g'
    assume inv: "invariant g" and run: "make_body F mk asf rb opcode ins iv fv g = Ok (r, g')"
    from run obtain x g1 where
      it: "infer_type asf opcode ins g = Ok (x, g1)" and
      rest: "(case x of Inl p \<Rightarrow> ret p
              | Inr (t, ins) \<Rightarrow>
                  orelse (fold_constants F opcode t ins iv)
                    (orelse (cse opcode t ins iv fv) (new_node t opcode ins iv fv))) g1 = Ok (r, g')"
      unfolding make_body_sum[OF True] bnd_Ok by blast
    from preservesD[OF preserves_infer_type inv it] asf
    have inv1: "invariant g1" and ext1: "extends g g1" by auto
    from infer_type_sum[OF it True] obtain t ins' where
      x: "x = Inr (t, ins')" and
      l2: "opcode = Plus \<or> opcode = Minus \<Longrightarrow> length ins' = 2" and
      l1: "opcode = PlusImm \<Longrightarrow> length ins' = 1"
      by blast
    from True l2 l1 have ne: "ins' \<noteq> []" by (auto simp: is_sum_def)
    from rest consider
      (folded) "fold_constants F opcode t ins' iv g1 = Ok (Some r, g')"
      | (found) g2 where "fold_constants F opcode t ins' iv g1 = Ok (None, g2)"
          "cse opcode t ins' iv fv g2 = Ok (Some r, g')"
      | (new) g2 g3 where "fold_constants F opcode t ins' iv g1 = Ok (None, g2)"
          "cse opcode t ins' iv fv g2 = Ok (None, g3)"
          "new_node t opcode ins' iv fv g3 = Ok (r, g')"
      unfolding x by (auto simp: orelse_Ok)
    then have "invariant g' \<and> extends g1 g'"
    proof cases
      case folded
      from preservesD[OF preserves_fold_constants inv1 folded] show ?thesis .
    next
      case found
      from fold_constants_None[OF found(1) True ne] have "g2 = g1" by simp
      with preservesD[OF preserves_cse inv1] found(2) show ?thesis by simp
    next
      case new
      from fold_constants_None[OF new(1) True ne]
      have g2: "g2 = g1" and d: "\<exists>i \<in> set ins'. deps (allNodes g1 ! i) \<noteq> {}" by simp_all
      from cse_state[OF new(2)] g2 have g3: "g3 = g1" by simp
      from True have "opcode \<noteq> Const" by (auto simp: is_sum_def)
      from new_node_invariant[OF inv1 new(3)[unfolded g3] this l2 l1 d]
      show ?thesis by simp
    qed
    with ext1 show "invariant g' \<and> extends g g'"
      by (auto intro: extends_trans)
  qed
qed

lemma preserves_as_body:
  "(\<And>opcode ins iv fv. preserves (mk opcode ins iv fv)) \<Longrightarrow> preserves (as_body F mk this t)"
  unfolding as_body_def by (intro preserves_intros)

lemma preserves_collect_body:
  "(\<And>p positive terms. preserves (cs p positive terms)) \<Longrightarrow>
   preserves (collect_body F cs this positive terms)"
  unfolding collect_body_def by (intro preserves_intros)

lemma preserves_collectSum: "preserves (collectSum F k this positive terms)"
proof (induction k arbitrary: this positive terms)
  case 0
  show ?case by (simp add: preserves_fail)
next
  case (Suc k)
  show ?case
    unfolding collectSum.simps
    by (rule preserves_collect_body) (rule Suc)
qed

lemma preserves_split_terms: "preserves (split_terms terms)"
  by (induction terms) (auto intro!: preserves_intros)

lemma preserves_float_constant: "preserves (float_constant F constTerms)"
  unfolding float_constant_def by (intro preserves_intros)

lemma preserves_int_constant: "preserves (int_constant constTerms)"
  unfolding int_constant_def by (intro preserves_intros)

lemma preserves_add_term:
  "(\<And>opcode ins iv fv. preserves (mk opcode ins iv fv)) \<Longrightarrow> preserves (add_term F mk acc next)"
  unfolding add_term_def by (intro preserves_intros)

lemma preserves_rebalance_body:
  "(\<And>opcode ins iv fv. preserves (mk opcode ins iv fv)) \<Longrightarrow>
   (\<And>p positive terms. preserves (cs p positive terms)) \<Longrightarrow>
   preserves (rebalance_body F mk cs this)"
  unfolding rebalance_body_def Let_def
  by (intro preserves_intros preserves_split_terms preserves_float_constant
      preserves_int_constant preserves_add_term)

lemma preserves_substitute_body:
  "(\<And>opcode ins iv fv. preserves (mk opcode ins iv fv)) \<Longrightarrow>
   (\<And>p var val. preserves (sub p var val)) \<Longrightarrow>
   preserves (substitute_body F mk sub this var val)"
  unfolding substitute_body_def by (intro preserves_intros)

lemma preserves_bind_body:
  "(\<And>opcode ins iv fv. preserves (mk opcode ins iv fv)) \<Longrightarrow>
   (\<And>p x y t c. preserves (bd p x y t c)) \<Longrightarrow>
   preserves (bind_body F mk bd this x y t c)"
  unfolding bind_body_def by (intro preserves_intros)

lemma preserves_make_as_rebalance:
  "(\<forall>opcode ins iv fv. preserves (make F k opcode ins iv fv)) \<and>
   (\<forall>this t. preserves (as_type F k this t)) \<and>
   (\<forall>this. preserves (rebalanceSum F k this))"
proof (induction k)
  case 0
  show ?case by (simp add: preserves_fail)
next
  case (Suc k)
  then have mk: "\<And>opcode ins iv fv. preserves (make F k opcode ins iv fv)"
    and asf: "\<And>this t. preserves (as_type F k this t)"
    and rb: "\<And>this. preserves (rebalanceSum F k this)"
    by blast+
  have "preserves (make F (Suc k) opcode ins iv fv)" for opcode ins iv fv
    unfolding make.simps by (rule preserves_make_body) (rule mk asf rb)+
  moreover have "preserves (as_type F (Suc k) this t)" for this t
    unfolding as_type.simps by (rule preserves_as_body) (rule mk)
  moreover have "preserves (rebalanceSum F (Suc k) this)" for this
    unfolding rebalanceSum.simps
    by (rule preserves_rebalance_body) (rule mk preserves_collectSum)+
  ultimately show ?case by blast
qed

lemma preserves_make: "preserves (make F k opcode ins iv fv)"
  by (simp add: preserves_make_as_rebalance)

lemma preserves_as_type: "preserves (as_type F k this t)"
  by (simp add: preserves_make_as_rebalance)

lemma preserves_rebalanceSum: "preserves (rebalanceSum F k this)"
  by (simp add: preserves_make_as_rebalance)

lemma preserves_substitute: "preserves (substitute F k this var val)"
proof (induction k arbitrary: this var val)
  case 0
  show ?case by (simp add: preserves_fail)
next
  case (Suc k)
  show ?case
    unfolding substitute.simps
    by (rule preserves_substitute_body) (rule preserves_make Suc)+
qed

lemma preserves_bind: "preserves (bind F k this x y t c)"
proof (induction k arbitrary: this x y t c)
  case 0
  show ?case by (simp add: preserves_fail)
next
  case (Suc k)
  show ?case
    unfolding bind.simps
    by (rule preserves_bind_body) (rule preserves_make Suc)+
qed

lemma invariant_empty: "invariant empty_graph"
  by (simp add: invariant_def tables_ok_def empty_graph_def)

lemma leads_to_invariant:
  "leads_to F g g' \<Longrightarrow> invariant g \<Longrightarrow> invariant g' \<and> extends g g'"
proof (induction rule: leads_to.induct)
  case here
  then show ?case by (simp add: extends_refl)
next
  case (by_make_float g1 v p g2)
  from preservesD[OF preserves_make_float _ by_make_float(2)] by_make_float(3,4)
  show ?case by (blast intro: extends_trans)
next
  case (by_make_int g1 v p g2)
  from preservesD[OF preserves_make_int _ by_make_int(2)] by_make_int(3,4)
  show ?case by (blast intro: extends_trans)
next
  case (by_make g1 k opcode ins iv fv p g2)
  from preservesD[OF preserves_make _ by_make(2)] by_make(3,4)
  show ?case by (blast intro: extends_trans)
next
  case (by_as g1 k this t p g2)
  from preservesD[OF preserves_as_type _ by_as(2)] by_as(3,4)
  show ?case by (blast intro: extends_trans)
next
  case (by_rebalanceSum g1 k this p g2)
  from preservesD[OF preserves_rebalanceSum _ by_rebalanceSum(2)] by_rebalanceSum(3,4)
  show ?case by (blast intro: extends_trans)
next
  case (by_substitute g1 k this var val p g2)
  from preservesD[OF preserves_substitute _ by_substitute(2)] by_substitute(3,4)
  show ?case by (blast intro: extends_trans)
next
  case (by_bind g1 k this x y vt c p g2)
  from preservesD[OF preserves_bind _ by_bind(2)] by_bind(3,4)
  show ?case by (blast intro: extends_trans)
qed

lemma reachable_invariant: "reachable F g \<Longrightarrow> invariant g"
  unfolding reachable_def using leads_to_invariant invariant_empty by blast

lemma leads_to_trans: "leads_to F g1 g2 \<Longrightarrow> leads_to F g g1 \<Longrightarrow> leads_to F g g2"
  by (induction rule: leads_to.induct) (auto intro: leads_to.intros)

lemma reachable_later: "reachable F g \<Longrightarrow> leads_to F g g' \<Longrightarrow> reachable F g'"
  unfolding reachable_def by (rule leads_to_trans)

lemma buildsD: "builds F m \<Longrightarrow> m g = Ok (r, g') \<Longrightarrow> leads_to F g g'"
  by (simp add: builds_def)

lemma builds_ret: "builds F (ret x)"
  by (simp add: builds_def ret_Ok leads_to.here)

lemma builds_bnd: "builds F m \<Longrightarrow> (\<And>x. builds F (f x)) \<Longrightarrow> builds F (bnd m f)"
  unfolding builds_def bnd_Ok by (blast intro: leads_to_trans)

lemma builds_calls:
  "builds F (make_float v)" "builds F (make_int F w)" "builds F (make F k opcode ins iv fv)"
  "builds F (as_type F k this t)" "builds F (rebalanceSum F k this)"
  "builds F (substitute F k this var val)" "builds F (bind F k this x y vt c)"
  unfolding builds_def by (blast intro: leads_to.intros)+

lemma builds_node: "builds F (node p)"
  by (simp add: builds_def node_Ok leads_to.here)

lemmas builds_intros = builds_ret builds_bnd builds_calls builds_node

lemma extends_same:
  "extends g g' \<Longrightarrow> p < length (allNodes g) \<Longrightarrow>
     p < length (allNodes g') \<and> same_node (allNodes g ! p) (allNodes g' ! p)"
  by (auto simp: extends_def)

lemma extends_deps:
  "extends g g' \<Longrightarrow> p < length (allNodes g) \<Longrightarrow> deps (allNodes g' ! p) = deps (allNodes g ! p)"
  by (auto simp: extends_def same_node_def)

lemma invariant_node_ok: "invariant g \<Longrightarrow> p < length (allNodes g) \<Longrightarrow> node_ok (allNodes g) p"
  by (simp add: invariant_def)

lemma const_no_deps:
  assumes "invariant g" "p < length (allNodes g)" "op (allNodes g ! p) = Const"
  shows "deps (allNodes g ! p) = {}"
  using invariant_node_ok[OF assms(1,2)] assms(3)
  by (simp add: node_ok_def own_dep_def)

lemma make_int_result:
  assumes inv: "invariant g" and run: "make_int F v g = Ok (p, g')"
  shows "p < length (allNodes g') \<and> op (allNodes g' ! p) = Const \<and>
         type (allNodes g' ! p) = IntT \<and> ival (allNodes g' ! p) = v"
proof -
  from run have "intInstances g' v = Some p"
    by (auto simp: make_int_def split: option.splits)
  moreover from preservesD[OF preserves_make_int inv run] have "tables_ok g'"
    by (simp add: invariant_def)
  ultimately show ?thesis by (rule tables_okD(1)[rotated])
qed

lemma make_float_result:
  assumes inv: "invariant g" and run: "make_float v g = Ok (p, g')"
  shows "p < length (allNodes g') \<and> op (allNodes g' ! p) = Const \<and>
         type (allNodes g' ! p) = Float \<and> fval (allNodes g' ! p) = v"
proof -
  from run have "floatInstances g' v = Some p"
    by (auto simp: make_float_def split: option.splits)
  moreover from preservesD[OF preserves_make_float inv run] have "tables_ok g'"
    by (simp add: invariant_def)
  ultimately show ?thesis by (rule tables_okD(2)[rotated])
qed

lemma covers_later:
  assumes "covers g this g1 new" "extends g1 g2"
  shows "covers g this g2 new"
proof -
  from assms have v: "\<forall>tm \<in> set new. fst tm < length (allNodes g1)"
    by (simp add: covers_def)
  have "deps (allNodes g2 ! fst tm) = deps (allNodes g1 ! fst tm)" if "tm \<in> set new" for tm
    using v that assms(2) by (simp add: extends_deps)
  then have "(\<Union>tm \<in> set new. deps (allNodes g2 ! fst tm)) =
             (\<Union>tm \<in> set new. deps (allNodes g1 ! fst tm))"
    by (intro SUP_cong refl)
  moreover from v assms(2) have "\<forall>tm \<in> set new. fst tm < length (allNodes g2)"
    by (auto simp: extends_def)
  ultimately show ?thesis using assms(1) by (simp add: covers_def)
qed

lemma collectSum_covers:
  assumes "invariant g" "collectSum F k this positive terms g = Ok (terms', g')"
  shows "\<exists>new. terms' = terms @ new \<and> covers g this g' new \<and> invariant g' \<and> extends g g'"
  using assms
proof (induction k arbitrary: this positive terms g terms' g')
  case 0
  then show ?case by (simp add: out_of_fuel_def)
next
  case (Suc k)
  let ?n = "allNodes g ! this"
  from Suc.prems(2) have valid: "this < length (allNodes g)"
    and body: "(if op ?n = Plus then
         bnd (elem (inputs ?n) 0) (\<lambda>a. bnd (collectSum F k a positive terms) (\<lambda>terms.
         bnd (elem (inputs ?n) 1) (\<lambda>b. collectSum F k b positive terms)))
       else if op ?n = Minus then
         bnd (elem (inputs ?n) 0) (\<lambda>a. bnd (collectSum F k a positive terms) (\<lambda>terms.
         bnd (elem (inputs ?n) 1) (\<lambda>b. collectSum F k b (\<not> positive) terms)))
       else if op ?n = PlusImm then
         bnd (elem (inputs ?n) 0) (\<lambda>a. bnd (collectSum F k a positive terms) (\<lambda>terms.
         bnd (make_int F (ival ?n)) (\<lambda>k. ret (terms @ [(k, True)]))))
       else ret (terms @ [(this, positive)])) g = Ok (terms', g')"
    by (auto simp: collect_body_def bnd_Ok node_Ok)
  note ok = invariant_node_ok[OF Suc.prems(1) valid, unfolded node_ok_def]
  have binary: ?case
    if two: "length (inputs ?n) = 2" and own: "own_dep (op ?n) = {}"
      and r1: "collectSum F k (inputs ?n ! 0) positive terms g = Ok (t1, g1)"
      and r2: "collectSum F k (inputs ?n ! 1) sign t1 g1 = Ok (terms', g')"
    for t1 g1 sign
  proof -
    from Suc.IH[OF Suc.prems(1) r1] obtain n1 where
      1: "t1 = terms @ n1" "covers g (inputs ?n ! 0) g1 n1" "invariant g1" "extends g g1"
      by blast
    from Suc.IH[OF 1(3) r2] obtain n2 where
      2: "terms' = t1 @ n2" "covers g1 (inputs ?n ! 1) g' n2" "invariant g'" "extends g1 g'"
      by blast
    from two have ins: "inputs ?n = [inputs ?n ! 0, inputs ?n ! 1]"
      by (cases "inputs ?n"; cases "tl (inputs ?n)") auto
    with ok valid have b: "inputs ?n ! 1 < length (allNodes g)"
      by (metis list.set_intros(1,2) order.strict_trans)
    have "(\<Union>j \<in> set (inputs ?n). deps (allNodes g ! j)) =
          deps (allNodes g ! (inputs ?n ! 0)) \<union> deps (allNodes g ! (inputs ?n ! 1))"
      by (subst ins) simp
    with ok own have d: "deps ?n = deps (allNodes g ! (inputs ?n ! 0)) \<union>
        deps (allNodes g ! (inputs ?n ! 1))"
      by simp
    from covers_later[OF 1(2) 2(4)] have c1: "covers g (inputs ?n ! 0) g' n1" .
    from 2(2) extends_deps[OF 1(4) b] have c2: "covers g (inputs ?n ! 1) g' n2"
      by (simp add: covers_def)
    from c1 c2 d have "covers g this g' (n1 @ n2)"
      by (auto simp: covers_def)
    with 1 2 show ?thesis
      by (auto intro: extends_trans)
  qed
  show ?case
  proof (cases "op ?n = Plus \<or> op ?n = Minus")
    case True
    with ok have two: "length (inputs ?n) = 2" by blast
    from True have own: "own_dep (op ?n) = {}" by (auto simp: own_dep_def)
    from body True two obtain t1 g1 sign where
      "collectSum F k (inputs ?n ! 0) positive terms g = Ok (t1, g1)"
      "collectSum F k (inputs ?n ! 1) sign t1 g1 = Ok (terms', g')"
      by (auto simp: bnd_Ok elem_Ok split: if_splits)
    with binary[OF two own] show ?thesis by blast
  next
    case False
    show ?thesis
    proof (cases "op ?n = PlusImm")
      case True
      with ok have one: "length (inputs ?n) = 1" by blast
      from True have own: "own_dep (op ?n) = {}" by (auto simp: own_dep_def)
      from body True one obtain t1 g1 c where
        r1: "collectSum F k (inputs ?n ! 0) positive terms g = Ok (t1, g1)" and
        mi: "make_int F (ival ?n) g1 = Ok (c, g')" and
        t': "terms' = t1 @ [(c, True)]"
        by (auto simp: bnd_Ok elem_Ok ret_Ok split: if_splits)
      from Suc.IH[OF Suc.prems(1) r1] obtain n1 where
        1: "t1 = terms @ n1" "covers g (inputs ?n ! 0) g1 n1" "invariant g1" "extends g g1"
        by blast
      from preservesD[OF preserves_make_int 1(3) mi]
      have 2: "invariant g'" "extends g1 g'" by simp_all
      from make_int_result[OF 1(3) mi] have c: "c < length (allNodes g')" by simp
      from one have ins: "inputs ?n = [inputs ?n ! 0]"
        by (cases "inputs ?n") auto
      have "(\<Union>j \<in> set (inputs ?n). deps (allNodes g ! j)) =
            deps (allNodes g ! (inputs ?n ! 0))"
        by (subst ins) simp
      with ok own have d: "deps ?n = deps (allNodes g ! (inputs ?n ! 0))"
        by simp
      from covers_later[OF 1(2) 2(2)] d c have "covers g this g' (n1 @ [(c, True)])"
        by (auto simp: covers_def)
      with 1 2 t' show ?thesis
        by (auto intro: extends_trans)
    next
      case notimm: False
      with body False have "terms' = terms @ [(this, positive)]" "g' = g"
        by (auto simp: ret_Ok)
      with Suc.prems(1) valid show ?thesis
        by (auto simp: covers_def extends_refl)
    qed
  qed
qed

lemma split_terms_Ok:
  "split_terms terms g = Ok ((cts, ncts), g') \<Longrightarrow>
     g' = g \<and> (\<forall>tm \<in> set terms. fst tm < length (allNodes g)) \<and>
     cts = filter (\<lambda>tm. op (allNodes g ! fst tm) = Const) terms \<and>
     ncts = filter (\<lambda>tm. op (allNodes g ! fst tm) \<noteq> Const) terms"
proof (induction terms arbitrary: cts ncts g')
  case Nil
  then show ?case by (simp add: ret_Ok)
next
  case (Cons tm terms)
  from Cons.prems obtain cts' ncts' g1 where
    v: "fst tm < length (allNodes g)" and
    r: "split_terms terms g = Ok ((cts', ncts'), g1)" and
    o: "(if op (allNodes g ! fst tm) = Const then ret (tm # cts', ncts') else ret (cts', tm # ncts')) g1
        = Ok ((cts, ncts), g')"
    by (auto simp: bnd_Ok node_Ok split: prod.splits)
  from Cons.IH[OF r] have g1: "g1 = g" by simp
  from Cons.IH[OF r] o v show ?case
    unfolding g1 by (auto simp: ret_Ok split: if_splits)
qed

lemma length_foldl_same:
  "(\<And>xs i. length (f xs i) = length xs) \<Longrightarrow> length (foldl f xs is) = length xs"
  by (induction "is" arbitrary: xs) simp_all

lemma length_sort_by_level: "length (sort_by_level lv ts) = length ts"
  unfolding sort_by_level_def
  by (intro length_foldl_same) (simp add: swap_if_greater_def)

lemma nonconstant_term:
  assumes "invariant g" and "this < length (allNodes g)" and "is_sum (op (allNodes g ! this))"
    and "collectSum F k this True [] g = Ok (terms, g1)"
    and "split_terms terms g1 = Ok ((constTerms, nonConstTerms), g2)"
  shows "nonConstTerms \<noteq> []"
proof -
  note inv = assms(1) and valid = assms(2)
  from invariant_node_ok[OF inv valid, unfolded node_ok_def] assms(3)
  have d: "deps (allNodes g ! this) \<noteq> {}"
    by blast
  from collectSum_covers[OF inv assms(4)] have c: "covers g this g1 terms" and inv1: "invariant g1"
    by auto
  from d obtain x where "x \<in> deps (allNodes g ! this)" by blast
  with c obtain tm where "tm \<in> set terms" "x \<in> deps (allNodes g1 ! fst tm)"
    unfolding covers_def by blast
  with c have tm: "tm \<in> set terms" "fst tm < length (allNodes g1)"
    "deps (allNodes g1 ! fst tm) \<noteq> {}"
    unfolding covers_def by blast+
  from const_no_deps[OF inv1 tm(2)] tm(3) have "op (allNodes g1 ! fst tm) \<noteq> Const"
    by blast
  with tm(1) split_terms_Ok[OF assms(5)] have "tm \<in> set nonConstTerms"
    by simp
  then show ?thesis by auto
qed

lemma example_sum_run: "example_sum empty_graph = Ok (4, example_graph)"
  by (simp add: example_graph_def example_sum_def ev cong: blocks)

lemma example_reachable: "reachable exact_ops example_graph"
proof -
  have "builds exact_ops example_sum"
    unfolding example_sum_def by (intro builds_intros)
  from buildsD[OF this example_sum_run] show ?thesis
    by (simp add: reachable_def)
qed

section \<open>Uniquing\<close>







lemma make_int_returns: "\<exists>p g1. make_int F v g = Ok (p, g1)"
  by (simp add: make_int_def split: option.splits)



section \<open>Sums\<close>

lemma int_constant_value:
  assumes "\<forall>tm \<in> set cts. fst tm < length (allNodes g)"
  shows "int_constant cts g = Ok (sum_list (map (signed_ival g) cts), g)"
proof -
  define step :: "int32 \<Rightarrow> nat \<times> bool \<Rightarrow> ('a, int32) M" where
    "step = (\<lambda>c (p, positive). bnd (node p) (\<lambda>n.
              ret (if positive then c + ival n else c - ival n)))"
  have one: "step c tm g = Ok (c + signed_ival g tm, g)" if "fst tm < length (allNodes g)" for c tm
    using that by (cases tm) (simp add: step_def bnd_apply node_def ret_def signed_ival_def)
  have "foldM step c0 cts g = Ok (c0 + sum_list (map (signed_ival g) cts), g)" for c0
    using assms
  proof (induction cts arbitrary: c0)
    case Nil
    show ?case by (simp add: ret_def)
  next
    case (Cons tm cts)
    from Cons.prems have "step c0 tm g = Ok (c0 + signed_ival g tm, g)"
      by (simp add: one)
    moreover from Cons have "foldM step (c0 + signed_ival g tm) cts g =
        Ok (c0 + signed_ival g tm + sum_list (map (signed_ival g) cts), g)"
      by simp
    ultimately show ?case
      by (simp add: bnd_apply add.assoc)
  qed
  from this[of 0] show ?thesis
    by (simp add: int_constant_def step_def)
qed

lemma extends_length: "extends g g' \<Longrightarrow> p < length (allNodes g) \<Longrightarrow> p < length (allNodes g')"
  by (simp add: extends_def)

lemma rebalance_example:
  "run (bnd example_sum (\<lambda>n. bnd (rebalanceSum exact_ops 4 n) (\<lambda>r. bnd (node r) (\<lambda>m.
     bnd (make exact_ops 1 VarX [] 0 0) (\<lambda>x. ret (op m, inputs m = [x], ival m)))))) =
   Ok (PlusImm, True, 3)"
  unfolding run_def by (simp add: example_sum_def ev cong: blocks)

section \<open>Coercion of an Int to Bool\<close>

lemma extends_type:
  "extends g g' \<Longrightarrow> p < length (allNodes g) \<Longrightarrow> type (allNodes g' ! p) = type (allNodes g ! p)"
  by (auto simp: extends_def same_node_def)

lemma comparison_cases:
  assumes "cmp \<in> {LT, GT, LTE, GTE, EQ, NEQ}"
  shows "infer_type asf cmp ins =
       bnd (assert (length ins = 2)) (\<lambda>_.
       bnd (either_float ins) (\<lambda>f.
       let t = (if f then Float else Bool) in
       bnd (coerce asf t 0 ins) (\<lambda>ins.
       bnd (coerce asf t 1 ins) (\<lambda>ins. ret (Inr (Bool, ins))))))"
  using assms by (auto simp: infer_type_def)

lemma int_to_bool_diverges:
  assumes "invariant g" "a < length (allNodes g)" "type (allNodes g ! a) = IntT"
  shows "as_type F k a Bool g = OutOfFuel \<and>
         (\<forall>cmp b iv fv. cmp \<in> {LT, GT, LTE, GTE, EQ, NEQ} \<longrightarrow> b < length (allNodes g) \<longrightarrow>
            type (allNodes g ! b) \<noteq> Float \<longrightarrow> make F k cmp [a, b] iv fv g = OutOfFuel)"
  using assms
proof (induction k arbitrary: g)
  case 0
  show ?case by (simp add: out_of_fuel_def)
next
  case (Suc k)
  have cmp: "make F (Suc k) cmp [a, b] iv fv g = OutOfFuel"
    if "cmp \<in> {LT, GT, LTE, GTE, EQ, NEQ}" "b < length (allNodes g)"
      "type (allNodes g ! b) \<noteq> Float" for cmp b iv fv
  proof -
    from Suc.IH[OF Suc.prems] have "as_type F k a Bool g = OutOfFuel" by simp
    then show ?thesis
      using that Suc.prems
      by (simp add: make_body_def comparison_cases[OF that(1)] bnd_apply assert_def ret_apply
          either_float_def operand_def elem_def node_def coerce_def Let_def)
  qed
  have "as_type F (Suc k) a Bool g = OutOfFuel"
  proof -
    obtain z g1 where mi: "make_int F 0 g = Ok (z, g1)"
      using make_int_returns by blast
    from preservesD[OF preserves_make_int Suc.prems(1) mi]
    have inv1: "invariant g1" and ext: "extends g g1" by simp_all
    from make_int_result[OF Suc.prems(1) mi]
    have z: "z < length (allNodes g1)" "type (allNodes g1 ! z) \<noteq> Float" by simp_all
    from ext Suc.prems have a: "a < length (allNodes g1)" "type (allNodes g1 ! a) = IntT"
      by (simp_all add: extends_length extends_type)
    from Suc.IH[OF inv1 a] z have "make F k NEQ [a, z] 0 (fzero F) g1 = OutOfFuel"
      by simp
    then show ?thesis
      using Suc.prems by (simp add: as_body_def bnd_apply node_def mi)
  qed
  with cmp show ?case by blast
qed

lemma or_diverges:
  assumes "invariant g" "a < length (allNodes g)" "type (allNodes g ! a) = Bool"
    and "b < length (allNodes g)" "type (allNodes g ! b) = IntT"
  shows "make F k Or [a, b] iv fv g = OutOfFuel"
proof (cases k)
  case 0
  then show ?thesis by (simp add: out_of_fuel_def)
next
  case (Suc k1)
  have it: "infer_type asf Or ins =
       bnd (assert (length ins = 2)) (\<lambda>_.
       bnd (either_float ins) (\<lambda>f.
       bnd (operand ins 0) (\<lambda>a.
       let t = (if f then Float
                else if type a = IntT \<or> type a = IntT then IntT
                else Bool) in
       bnd (coerce asf t 0 ins) (\<lambda>ins.
       bnd (coerce asf t 1 ins) (\<lambda>ins. ret (Inr (t, ins)))))))" for asf ins
    by (simp add: infer_type_def)
  show ?thesis
  proof (cases k1)
    case 0
    with assms show ?thesis
      by (simp add: Suc make_body_def it bnd_apply assert_def ret_apply either_float_def
          operand_def elem_def node_def coerce_def Let_def out_of_fuel_def)
  next
    case k2: (Suc k2)
    from int_to_bool_diverges[OF assms(1,4,5)]
    have "as_type F k1 b Bool g = OutOfFuel" by simp
    moreover from assms have "as_type F k1 a Bool g = Ok (a, g)"
      by (simp add: k2 as_body_def bnd_apply node_def ret_apply)
    ultimately show ?thesis
      using assms
      by (simp add: Suc make_body_def it bnd_apply assert_def ret_apply either_float_def
          operand_def elem_def node_def coerce_def Let_def)
  qed
qed

lemma bool_and_int_run:
  "\<exists>g. bool_and_int empty_graph = Ok ((2, 3), g) \<and>
        2 < length (allNodes g) \<and> type (allNodes g ! 2) = Bool \<and>
        3 < length (allNodes g) \<and> type (allNodes g ! 3) = IntT"
  by (simp add: bool_and_int_def ev cong: blocks)

lemma preserves_bool_and_int: "preserves bool_and_int"
  unfolding bool_and_int_def by (intro preserves_intros preserves_make)

section \<open>Types of coerced nodes\<close>

lemma candidates_Some:
  "candidates opcode t ins iv fv cs g = Ok (Some c, g') \<Longrightarrow>
     c < length (allNodes g') \<and> type (allNodes g' ! c) = t \<and> op (allNodes g' ! c) = opcode \<and>
     inputs (allNodes g' ! c) = ins \<and> ival (allNodes g' ! c) = iv"
  by (induction cs) (auto simp: ret_Ok bnd_Ok node_Ok split: if_splits)

lemma cse_Some:
  "cse opcode t ins iv fv g = Ok (Some c, g') \<Longrightarrow>
     c < length (allNodes g') \<and> type (allNodes g' ! c) = t \<and> op (allNodes g' ! c) = opcode \<and>
     inputs (allNodes g' ! c) = ins \<and> ival (allNodes g' ! c) = iv"
  by (auto simp: cse_def ret_Ok bnd_Ok operand_Ok split: if_splits dest: candidates_Some)

lemma new_node_result:
  assumes "new_node t opcode ins iv fv g = Ok (r, g')"
  shows "r < length (allNodes g') \<and> type (allNodes g' ! r) = t \<and> op (allNodes g' ! r) = opcode \<and>
         inputs (allNodes g' ! r) = ins \<and> ival (allNodes g' ! r) = iv"
  using new_node_Ok(1,3)[OF assms]
  by (simp add: nth_append length_add_outputs)

text \<open>The opcodes that coercion uses, and the comparisons.\<close>

lemma make_body_cast:
  assumes "opcode \<in> {IntToFloat, FloatToInt, And, LT, GT, LTE, GTE, EQ, NEQ}"
  shows "make_body F mk asf rb opcode ins iv fv =
     bnd (infer_type asf opcode ins) (\<lambda>r.
     case r of
       Inl p \<Rightarrow> ret p
     | Inr (t, ins) \<Rightarrow>
         orelse (fold_constants F opcode t ins iv)
        (bnd (rebalance_inputs rb opcode ins) (\<lambda>ins.
         orelse (cse opcode t ins iv fv) (new_node t opcode ins iv fv))))"
proof -
  have [simp]: "orelse (ret None) k = k" for k :: "('a, 'b) M"
    by (rule ext) (simp add: orelse_def bnd_def ret_def)
  have K: "orelse (noop opcode ins)
          (orelse (divide_hoist F mk opcode ins)
          (orelse (distribute F mk opcode ins)
          (orelse (reassociate F mk opcode ins)
          (bnd (rebalance_inputs rb opcode ins) (\<lambda>ins.
           orelse (variables F opcode t)
          (orelse (fuse_load F mk opcode ins iv)
          (orelse (fuse_times F mk opcode t ins)
          (orelse (cse opcode t ins iv fv)
          (new_node t opcode ins iv fv)))))))))
        = bnd (rebalance_inputs rb opcode ins) (\<lambda>ins.
            orelse (cse opcode t ins iv fv) (new_node t opcode ins iv fv))" for t ins
    using assms
    by (auto simp: noop_def divide_hoist_def distribute_def reassociate_def variables_def
        fuse_load_def fuse_times_def)
  show ?thesis
    unfolding make_body_def K ..
qed

lemma infer_type_cast:
  assumes "opcode \<in> {IntToFloat, FloatToInt, And, LT, GT, LTE, GTE, EQ, NEQ}"
    and "infer_type asf opcode ins g = Ok (x, g1)"
  shows "\<exists>t ins'. x = Inr (t, ins') \<and> (opcode = IntToFloat \<longrightarrow> t = Float) \<and>
           (opcode = FloatToInt \<longrightarrow> t = IntT) \<and>
           (opcode \<in> {LT, GT, LTE, GTE, EQ, NEQ} \<longrightarrow> t = Bool) \<and>
           (opcode = And \<longrightarrow> length ins' = 2 \<and> ins' ! 1 = ins ! 1 \<and>
              ins' ! 1 < length (allNodes g1) \<and> t = type (allNodes g1 ! (ins' ! 1)))"
  using assms
  by (auto simp: infer_type_def bnd_Ok ret_Ok assert_Ok operand_Ok coerce_def elem_Ok Let_def)

lemma fold_constants_cast:
  assumes "invariant g" "fold_constants F opcode t ins iv g = Ok (Some r, g')"
    and "opcode \<in> {IntToFloat, FloatToInt, And, LT, GT, LTE, GTE, EQ, NEQ}"
    and "opcode = IntToFloat \<Longrightarrow> t = Float" "opcode = FloatToInt \<Longrightarrow> t = IntT"
    and "opcode = And \<Longrightarrow> t \<noteq> Bool"
  shows "r < length (allNodes g') \<and> type (allNodes g' ! r) = t"
proof -
  from assms(2) have "g' = g' \<and>
    ((\<exists>v. make_float v g = Ok (r, g') \<and> t = Float) \<or> (\<exists>v. make_int F v g = Ok (r, g') \<and> t = IntT))"
    using assms(3-6)
    by (cases t)
      (auto simp: fold_constants_def bnd_Ok ret_Ok some_Ok operand_Ok
        split: if_splits dest!: allInputsConst_Ok)
  with make_float_result[OF assms(1)] make_int_result[OF assms(1)] show ?thesis
    by blast
qed

lemma make_body_cast_type:
  assumes inv: "invariant g"
    and asf: "\<And>p t. preserves (asf p t)" and rb: "\<And>p. preserves (rb p)"
    and op: "opcode \<in> {IntToFloat, FloatToInt, And, LT, GT, LTE, GTE, EQ, NEQ}"
    and run: "make_body F mk asf rb opcode ins iv fv g = Ok (r, g')"
  shows "\<exists>t ins' g1. infer_type asf opcode ins g = Ok (Inr (t, ins'), g1) \<and>
           (opcode = And \<and> t = Bool \<or>
            r < length (allNodes g') \<and> type (allNodes g' ! r) = t)"
proof -
  from run obtain x g1 where
    it: "infer_type asf opcode ins g = Ok (x, g1)" and
    rest: "(case x of Inl p \<Rightarrow> ret p
            | Inr (t, ins) \<Rightarrow>
                orelse (fold_constants F opcode t ins iv)
               (bnd (rebalance_inputs rb opcode ins) (\<lambda>ins.
                orelse (cse opcode t ins iv fv) (new_node t opcode ins iv fv)))) g1 = Ok (r, g')"
    unfolding make_body_cast[OF op] bnd_Ok by blast
  from preservesD[OF preserves_infer_type inv it] asf have inv1: "invariant g1" by auto
  from infer_type_cast[OF op it] obtain t ins' where
    x: "x = Inr (t, ins')" and
    t: "opcode = IntToFloat \<Longrightarrow> t = Float" "opcode = FloatToInt \<Longrightarrow> t = IntT"
    by blast
  from rest consider
    (folded) "fold_constants F opcode t ins' iv g1 = Ok (Some r, g')"
    | (found) g3 ins2 where "cse opcode t ins2 iv fv g3 = Ok (Some r, g')"
    | (new) g4 ins2 where "new_node t opcode ins2 iv fv g4 = Ok (r, g')"
    unfolding x by (auto simp: orelse_Ok bnd_Ok)
  then have "opcode = And \<and> t = Bool \<or> r < length (allNodes g') \<and> type (allNodes g' ! r) = t"
  proof cases
    case folded
    show ?thesis
    proof (cases "opcode = And \<and> t = Bool")
      case True
      then show ?thesis by simp
    next
      case False
      with fold_constants_cast[OF inv1 folded op t] show ?thesis by blast
    qed
  next
    case found
    from cse_Some[OF found] show ?thesis by simp
  next
    case new
    from new_node_result[OF new] show ?thesis by simp
  qed
  with it x show ?thesis by blast
qed

lemma make_cast_type:
  assumes inv: "invariant g" and run: "make F k opcode ins iv fv g = Ok (r, g')"
  shows "opcode = IntToFloat \<Longrightarrow> r < length (allNodes g') \<and> type (allNodes g' ! r) = Float"
    and "opcode = FloatToInt \<Longrightarrow> r < length (allNodes g') \<and> type (allNodes g' ! r) = IntT"
    and "opcode \<in> {LT, GT, LTE, GTE, EQ, NEQ} \<Longrightarrow>
           r < length (allNodes g') \<and> type (allNodes g' ! r) = Bool"
    and "opcode = And \<Longrightarrow> ins ! 1 < length (allNodes g) \<Longrightarrow>
           type (allNodes g ! (ins ! 1)) \<noteq> Bool \<Longrightarrow>
           r < length (allNodes g') \<and> type (allNodes g' ! r) = type (allNodes g ! (ins ! 1))"
proof -
  obtain k' where k: "k = Suc k'"
    using run by (cases k) (simp_all add: out_of_fuel_def)
  note body = run[unfolded k make.simps]
  have cast: "\<exists>t ins' g1. infer_type (as_type F k') opcode ins g = Ok (Inr (t, ins'), g1) \<and>
           (opcode = And \<and> t = Bool \<or> r < length (allNodes g') \<and> type (allNodes g' ! r) = t)"
    if "opcode \<in> {IntToFloat, FloatToInt, And, LT, GT, LTE, GTE, EQ, NEQ}"
    by (rule make_body_cast_type[OF inv preserves_as_type preserves_rebalanceSum that body])
  {
    assume o: "opcode = IntToFloat"
    with cast obtain t ins' g1 where
      "infer_type (as_type F k') opcode ins g = Ok (Inr (t, ins'), g1)"
      "r < length (allNodes g') \<and> type (allNodes g' ! r) = t" by auto
    with infer_type_cast[OF _ this(1)] o
    show "r < length (allNodes g') \<and> type (allNodes g' ! r) = Float" by auto
  }
  {
    assume o: "opcode = FloatToInt"
    with cast obtain t ins' g1 where
      "infer_type (as_type F k') opcode ins g = Ok (Inr (t, ins'), g1)"
      "r < length (allNodes g') \<and> type (allNodes g' ! r) = t" by auto
    with infer_type_cast[OF _ this(1)] o
    show "r < length (allNodes g') \<and> type (allNodes g' ! r) = IntT" by auto
  }
  {
    assume o: "opcode \<in> {LT, GT, LTE, GTE, EQ, NEQ}"
    with cast obtain t ins' g1 where
      "infer_type (as_type F k') opcode ins g = Ok (Inr (t, ins'), g1)"
      "r < length (allNodes g') \<and> type (allNodes g' ! r) = t" by auto
    with infer_type_cast[OF _ this(1)] o
    show "r < length (allNodes g') \<and> type (allNodes g' ! r) = Bool" by auto
  }
  {
    assume o: "opcode = And" and v: "ins ! 1 < length (allNodes g)"
      and nb: "type (allNodes g ! (ins ! 1)) \<noteq> Bool"
    from cast o obtain t ins' g1 where
      it: "infer_type (as_type F k') opcode ins g = Ok (Inr (t, ins'), g1)" and
      r: "t = Bool \<or> r < length (allNodes g') \<and> type (allNodes g' ! r) = t" by auto
    from preservesD[OF preserves_infer_type inv it] preserves_as_type
    have ext: "extends g g1" by blast
    from infer_type_cast[OF _ it] o
    have "ins' ! 1 = ins ! 1" "t = type (allNodes g1 ! (ins' ! 1))" by auto
    with extends_type[OF ext v] have "t = type (allNodes g ! (ins ! 1))" by simp
    with r nb show "r < length (allNodes g') \<and> type (allNodes g' ! r) = type (allNodes g ! (ins ! 1))"
      by auto
  }
qed

lemma as_type_type:
  assumes inv: "invariant g" and run: "as_type F k p t g = Ok (p', g')"
  shows "p' < length (allNodes g') \<and> type (allNodes g' ! p') = t"
proof -
  obtain k' where k: "k = Suc k'"
    using run by (cases k) (simp_all add: out_of_fuel_def)
  let ?n = "allNodes g ! p"
  from run have p: "p < length (allNodes g)"
    and body: "(if t = type ?n then ret p
     else if type ?n = IntT \<and> t = Float then make F k' IntToFloat [p] 0 (fzero F)
     else if type ?n = IntT \<and> t = Bool then
       bnd (make_int F 0) (\<lambda>z. make F k' NEQ [p, z] 0 (fzero F))
     else if type ?n = Bool \<and> t = Float then
       bnd (make_float (fone F)) (\<lambda>one. make F k' And [p, one] 0 (fzero F))
     else if type ?n = Bool \<and> t = IntT then
       bnd (make_int F 1) (\<lambda>one. make F k' And [p, one] 0 (fzero F))
     else if type ?n = Float \<and> t = Bool then
       bnd (make_float (fzero F)) (\<lambda>z. make F k' NEQ [p, z] 0 (fzero F))
     else if type ?n = Float \<and> t = IntT then make F k' FloatToInt [p] 0 (fzero F)
     else panic) g = Ok (p', g')"
    by (auto simp: k as_body_def bnd_Ok node_Ok)
  have int_and: "p' < length (allNodes g') \<and> type (allNodes g' ! p') = IntT"
    if "make_int F 1 g = Ok (one, g1)" "make F k' And [p, one] 0 (fzero F) g1 = Ok (p', g')"
    for one g1
  proof -
    from preservesD[OF preserves_make_int inv that(1)] have inv1: "invariant g1" by simp
    from make_int_result[OF inv that(1)]
    have "one < length (allNodes g1)" "type (allNodes g1 ! one) = IntT" by simp_all
    with make_cast_type(4)[OF inv1 that(2)] show ?thesis by simp
  qed
  have float_and: "p' < length (allNodes g') \<and> type (allNodes g' ! p') = Float"
    if "make_float (fone F) g = Ok (one, g1)" "make F k' And [p, one] 0 (fzero F) g1 = Ok (p', g')"
    for one g1
  proof -
    from preservesD[OF preserves_make_float inv that(1)] have inv1: "invariant g1" by simp
    from make_float_result[OF inv that(1)]
    have "one < length (allNodes g1)" "type (allNodes g1 ! one) = Float" by simp_all
    with make_cast_type(4)[OF inv1 that(2)] show ?thesis by simp
  qed
  have neq: "p' < length (allNodes g') \<and> type (allNodes g' ! p') = Bool"
    if "m g = Ok (z, g1)" "preserves m" "make F k' NEQ [p, z] 0 (fzero F) g1 = Ok (p', g')"
    for z g1 and m :: "('a, nat) M"
  proof -
    from preservesD[OF that(2) inv that(1)] have inv1: "invariant g1" by simp
    from make_cast_type(3)[OF inv1 that(3)] show ?thesis by simp
  qed
  show ?thesis
  proof (cases "t = type ?n")
    case True
    with body p show ?thesis by (simp add: ret_Ok)
  next
    case False
    note ne = this
    show ?thesis
    proof (cases "type ?n")
      case IntT
      show ?thesis
      proof (cases t)
        case IntT
        with ne \<open>type ?n = IntT\<close> show ?thesis by simp
      next
        case Float
        with body \<open>type ?n = IntT\<close> make_cast_type(1)[OF inv] show ?thesis by auto
      next
        case Bool
        with body \<open>type ?n = IntT\<close> neq[OF _ preserves_make_int] show ?thesis
          by (auto simp: bnd_Ok)
      qed
    next
      case Float
      show ?thesis
      proof (cases t)
        case IntT
        with body \<open>type ?n = Float\<close> make_cast_type(2)[OF inv] show ?thesis by auto
      next
        case Float
        with ne \<open>type ?n = Float\<close> show ?thesis by simp
      next
        case Bool
        with body \<open>type ?n = Float\<close> neq[OF _ preserves_make_float] show ?thesis
          by (auto simp: bnd_Ok)
      qed
    next
      case Bool
      show ?thesis
      proof (cases t)
        case IntT
        with body \<open>type ?n = Bool\<close> int_and show ?thesis by (auto simp: bnd_Ok)
      next
        case Float
        with body \<open>type ?n = Bool\<close> float_and show ?thesis by (auto simp: bnd_Ok)
      next
        case Bool
        with ne \<open>type ?n = Bool\<close> show ?thesis by simp
      qed
    qed
  qed
qed

lemma either_float_Ok:
  "either_float ins g = Ok (f, g') \<Longrightarrow>
     g' = g \<and> (f \<longleftrightarrow> type (allNodes g ! (ins ! 0)) = Float \<or> type (allNodes g ! (ins ! 1)) = Float)"
  by (auto simp: either_float_def bnd_Ok ret_Ok operand_Ok split: if_splits)

lemma coerce_Ok:
  "coerce asf t i ins g = Ok (ins', g') \<longleftrightarrow>
     (\<exists>p'. i < length ins \<and> asf (ins ! i) t g = Ok (p', g') \<and> ins' = ins[i := p'])"
  by (auto simp: coerce_def bnd_Ok ret_Ok elem_Ok)

lemma constants_graph_reachable: "reachable exact_ops constants_graph"
proof -
  have b: "builds exact_ops (bnd (make_float 1) (\<lambda>one. make_float 2))"
    by (intro builds_intros)
  have "\<exists>r. bnd (make_float 1) (\<lambda>one. make_float 2) empty_graph = Ok (r, constants_graph)"
    by (simp add: constants_graph_def ev cong: blocks)
  with buildsD[OF b] show ?thesis
    by (auto simp: reachable_def)
qed

section \<open>Fuel\<close>

text \<open>
  A call that returns with some fuel returns the same with more: the fuel only bounds the
  depth of the recursion.
\<close>

lemma refines_refl: "refines m m"
  by (simp add: refines_def)

lemma refines_trans: "refines a b \<Longrightarrow> refines b c \<Longrightarrow> refines a c"
  unfolding refines_def by metis

lemma refines_out_of_fuel: "refines out_of_fuel m"
  by (simp add: refines_def out_of_fuel_def)

lemma refines_bnd:
  assumes "refines m m'" and "\<And>x. refines (f x) (f' x)"
  shows "refines (bnd m f) (bnd m' f')"
  unfolding refines_def
proof
  fix g
  from assms(1) consider "m g = OutOfFuel" | "m' g = m g"
    by (auto simp: refines_def)
  then show "bnd m f g = OutOfFuel \<or> bnd m' f' g = bnd m f g"
  proof cases
    case 1
    then show ?thesis by (simp add: bnd_def)
  next
    case 2
    show ?thesis
    proof (cases "m g")
      case (Ok xg)
      obtain x g1 where "xg = (x, g1)" by (cases xg)
      with Ok 2 assms(2)[of x] show ?thesis
        by (auto simp: bnd_def refines_def)
    qed (use 2 in \<open>simp_all add: bnd_def\<close>)
  qed
qed

lemma refines_if:
  "(c \<Longrightarrow> refines a a') \<Longrightarrow> (\<not> c \<Longrightarrow> refines b b') \<Longrightarrow>
   refines (if c then a else b) (if c then a' else b')"
  by simp

lemma refines_case_option:
  "refines a a' \<Longrightarrow> (\<And>x. refines (f x) (f' x)) \<Longrightarrow>
   refines (case r of None \<Rightarrow> a | Some x \<Rightarrow> f x) (case r of None \<Rightarrow> a' | Some x \<Rightarrow> f' x)"
  by (cases r) simp_all

lemma refines_case_prod:
  "(\<And>a b. refines (f a b) (f' a b)) \<Longrightarrow>
   refines (case p of (a, b) \<Rightarrow> f a b) (case p of (a, b) \<Rightarrow> f' a b)"
  by (cases p) simp

lemma refines_case_sum:
  "(\<And>x. refines (f x) (f' x)) \<Longrightarrow> (\<And>y. refines (h y) (h' y)) \<Longrightarrow>
   refines (case r of Inl x \<Rightarrow> f x | Inr y \<Rightarrow> h y) (case r of Inl x \<Rightarrow> f' x | Inr y \<Rightarrow> h' y)"
  by (cases r) simp_all

lemma refines_some: "refines m m' \<Longrightarrow> refines (some m) (some m')"
  unfolding some_def by (intro refines_bnd refines_refl)

lemma refines_orelse: "refines m m' \<Longrightarrow> refines k k' \<Longrightarrow> refines (orelse m k) (orelse m' k')"
  unfolding orelse_def by (intro refines_bnd refines_case_option refines_refl)

lemma refines_otherwise:
  "refines m m' \<Longrightarrow> refines k k' \<Longrightarrow> refines (otherwise m k) (otherwise m' k')"
  unfolding otherwise_def by (intro refines_bnd refines_case_option refines_refl)

lemma refines_mapM: "(\<And>x. refines (f x) (f' x)) \<Longrightarrow> refines (mapM f xs) (mapM f' xs)"
  by (induction xs) (auto intro!: refines_bnd refines_refl)

lemma refines_foldM:
  "(\<And>a x. refines (f a x) (f' a x)) \<Longrightarrow> refines (foldM f a xs) (foldM f' a xs)"
  by (induction xs arbitrary: a) (auto intro!: refines_bnd refines_refl)

lemmas refines_intros =
  refines_refl refines_bnd refines_if refines_case_option refines_case_prod refines_case_sum
  refines_some refines_orelse refines_otherwise refines_mapM refines_foldM

lemma refines_coerce:
  "(\<And>p t. refines (asf p t) (asf' p t)) \<Longrightarrow> refines (coerce asf t i ins) (coerce asf' t i ins)"
  unfolding coerce_def by (intro refines_intros)

lemma refines_infer_type:
  "(\<And>p t. refines (asf p t) (asf' p t)) \<Longrightarrow>
   refines (infer_type asf opcode ins) (infer_type asf' opcode ins)"
  unfolding infer_type_def Let_def by (intro refines_intros refines_coerce)

lemma refines_divide_hoist:
  "(\<And>opcode ins iv fv. refines (mk opcode ins iv fv) (mk' opcode ins iv fv)) \<Longrightarrow>
   refines (divide_hoist F mk opcode ins) (divide_hoist F mk' opcode ins)"
  unfolding divide_hoist_def by (intro refines_intros)

lemma refines_by_level:
  "(\<And>x a b. refines (k x a b) (k' x a b)) \<Longrightarrow> refines (by_level k sel) (by_level k' sel)"
  unfolding by_level_def Let_def by (intro refines_intros)

lemma refines_distribute:
  "(\<And>opcode ins iv fv. refines (mk opcode ins iv fv) (mk' opcode ins iv fv)) \<Longrightarrow>
   refines (distribute F mk opcode ins) (distribute F mk' opcode ins)"
  unfolding distribute_def by (intro refines_intros refines_by_level)

lemma refines_reassociate:
  "(\<And>opcode ins iv fv. refines (mk opcode ins iv fv) (mk' opcode ins iv fv)) \<Longrightarrow>
   refines (reassociate F mk opcode ins) (reassociate F mk' opcode ins)"
  unfolding reassociate_def by (intro refines_intros refines_by_level)

lemma refines_rebalance_inputs:
  "(\<And>p. refines (rb p) (rb' p)) \<Longrightarrow>
   refines (rebalance_inputs rb opcode ins) (rebalance_inputs rb' opcode ins)"
  unfolding rebalance_inputs_def by (intro refines_intros)

lemma refines_fuse_load:
  "(\<And>opcode ins iv fv. refines (mk opcode ins iv fv) (mk' opcode ins iv fv)) \<Longrightarrow>
   refines (fuse_load F mk opcode ins iv) (fuse_load F mk' opcode ins iv)"
  unfolding fuse_load_def by (intro refines_intros)

lemma refines_fuse_times:
  "(\<And>opcode ins iv fv. refines (mk opcode ins iv fv) (mk' opcode ins iv fv)) \<Longrightarrow>
   refines (fuse_times F mk opcode t ins) (fuse_times F mk' opcode t ins)"
  unfolding fuse_times_def by (intro refines_intros)

lemma refines_make_body:
  assumes "\<And>opcode ins iv fv. refines (mk opcode ins iv fv) (mk' opcode ins iv fv)"
    and "\<And>p t. refines (asf p t) (asf' p t)"
    and "\<And>p. refines (rb p) (rb' p)"
  shows "refines (make_body F mk asf rb opcode ins iv fv) (make_body F mk' asf' rb' opcode ins iv fv)"
  unfolding make_body_def
  by (intro refines_intros refines_infer_type refines_divide_hoist refines_distribute
      refines_reassociate refines_rebalance_inputs refines_fuse_load refines_fuse_times assms)

lemma refines_as_body:
  "(\<And>opcode ins iv fv. refines (mk opcode ins iv fv) (mk' opcode ins iv fv)) \<Longrightarrow>
   refines (as_body F mk this t) (as_body F mk' this t)"
  unfolding as_body_def by (intro refines_intros)

lemma refines_collect_body:
  "(\<And>p positive terms. refines (cs p positive terms) (cs' p positive terms)) \<Longrightarrow>
   refines (collect_body F cs this positive terms) (collect_body F cs' this positive terms)"
  unfolding collect_body_def by (intro refines_intros)

lemma refines_add_term:
  "(\<And>opcode ins iv fv. refines (mk opcode ins iv fv) (mk' opcode ins iv fv)) \<Longrightarrow>
   refines (add_term F mk acc next) (add_term F mk' acc next)"
  unfolding add_term_def by (intro refines_intros)

lemma refines_rebalance_body:
  "(\<And>opcode ins iv fv. refines (mk opcode ins iv fv) (mk' opcode ins iv fv)) \<Longrightarrow>
   (\<And>p positive terms. refines (cs p positive terms) (cs' p positive terms)) \<Longrightarrow>
   refines (rebalance_body F mk cs this) (rebalance_body F mk' cs' this)"
  unfolding rebalance_body_def Let_def by (intro refines_intros refines_add_term)

lemma refines_substitute_body:
  "(\<And>opcode ins iv fv. refines (mk opcode ins iv fv) (mk' opcode ins iv fv)) \<Longrightarrow>
   (\<And>p var val. refines (sub p var val) (sub' p var val)) \<Longrightarrow>
   refines (substitute_body F mk sub this var val) (substitute_body F mk' sub' this var val)"
  unfolding substitute_body_def by (intro refines_intros)

lemma refines_bind_body:
  "(\<And>opcode ins iv fv. refines (mk opcode ins iv fv) (mk' opcode ins iv fv)) \<Longrightarrow>
   (\<And>p x y t c. refines (bd p x y t c) (bd' p x y t c)) \<Longrightarrow>
   refines (bind_body F mk bd this x y t c) (bind_body F mk' bd' this x y t c)"
  unfolding bind_body_def by (intro refines_intros)

lemma collectSum_more_fuel:
  "refines (collectSum F k this positive terms) (collectSum F (Suc k) this positive terms)"
proof (induction k arbitrary: this positive terms)
  case 0
  show ?case by (simp add: refines_out_of_fuel)
next
  case (Suc k)
  have "refines (collect_body F (collectSum F k) this positive terms)
         (collect_body F (collectSum F (Suc k)) this positive terms)"
    by (rule refines_collect_body) (rule Suc)
  moreover have "collectSum F (Suc k) this positive terms =
      collect_body F (collectSum F k) this positive terms"
    by (rule collectSum.simps)
  moreover have "collectSum F (Suc (Suc k)) this positive terms =
      collect_body F (collectSum F (Suc k)) this positive terms"
    by (rule collectSum.simps)
  ultimately show ?case by metis
qed

lemma make_more_fuel_step:
  "(\<forall>opcode ins iv fv. refines (make F k opcode ins iv fv) (make F (Suc k) opcode ins iv fv)) \<and>
   (\<forall>this t. refines (as_type F k this t) (as_type F (Suc k) this t)) \<and>
   (\<forall>this. refines (rebalanceSum F k this) (rebalanceSum F (Suc k) this))"
proof (induction k)
  case 0
  show ?case by (simp add: refines_out_of_fuel)
next
  case (Suc k)
  then have mk: "\<And>opcode ins iv fv. refines (make F k opcode ins iv fv) (make F (Suc k) opcode ins iv fv)"
    and asf: "\<And>this t. refines (as_type F k this t) (as_type F (Suc k) this t)"
    and rb: "\<And>this. refines (rebalanceSum F k this) (rebalanceSum F (Suc k) this)"
    by blast+
  have "refines (make F (Suc k) opcode ins iv fv) (make F (Suc (Suc k)) opcode ins iv fv)"
    for opcode ins iv fv
  proof -
    have "refines (make_body F (make F k) (as_type F k) (rebalanceSum F k) opcode ins iv fv)
           (make_body F (make F (Suc k)) (as_type F (Suc k)) (rebalanceSum F (Suc k))
              opcode ins iv fv)"
      by (rule refines_make_body) (rule mk asf rb)+
    moreover have "make F (Suc k) opcode ins iv fv =
        make_body F (make F k) (as_type F k) (rebalanceSum F k) opcode ins iv fv"
      by (rule make.simps)
    moreover have "make F (Suc (Suc k)) opcode ins iv fv =
        make_body F (make F (Suc k)) (as_type F (Suc k)) (rebalanceSum F (Suc k))
          opcode ins iv fv"
      by (rule make.simps)
    ultimately show ?thesis by metis
  qed
  moreover have "refines (as_type F (Suc k) this t) (as_type F (Suc (Suc k)) this t)" for this t
  proof -
    have "refines (as_body F (make F k) this t) (as_body F (make F (Suc k)) this t)"
      by (rule refines_as_body) (rule mk)
    moreover have "as_type F (Suc k) this t = as_body F (make F k) this t"
      by (rule as_type.simps)
    moreover have "as_type F (Suc (Suc k)) this t = as_body F (make F (Suc k)) this t"
      by (rule as_type.simps)
    ultimately show ?thesis by metis
  qed
  moreover have "refines (rebalanceSum F (Suc k) this) (rebalanceSum F (Suc (Suc k)) this)" for this
  proof -
    have "refines (rebalance_body F (make F k) (collectSum F k) this)
           (rebalance_body F (make F (Suc k)) (collectSum F (Suc k)) this)"
      by (rule refines_rebalance_body) (rule mk collectSum_more_fuel)+
    moreover have "rebalanceSum F (Suc k) this = rebalance_body F (make F k) (collectSum F k) this"
      by (rule rebalanceSum.simps)
    moreover have "rebalanceSum F (Suc (Suc k)) this =
        rebalance_body F (make F (Suc k)) (collectSum F (Suc k)) this"
      by (rule rebalanceSum.simps)
    ultimately show ?thesis by metis
  qed
  ultimately show ?case by blast
qed

lemma make_step:
  "refines (make F k opcode ins iv fv) (make F (Suc k) opcode ins iv fv)"
  using make_more_fuel_step[of F k] by blast

lemma substitute_more_fuel_step:
  "refines (substitute F k this var val) (substitute F (Suc k) this var val)"
proof (induction k arbitrary: this var val)
  case 0
  show ?case by (simp add: refines_out_of_fuel)
next
  case (Suc k)
  have "refines (substitute_body F (make F k) (substitute F k) this var val)
         (substitute_body F (make F (Suc k)) (substitute F (Suc k)) this var val)"
    by (rule refines_substitute_body) (rule make_step Suc)+
  moreover have "substitute F (Suc k) this var val =
      substitute_body F (make F k) (substitute F k) this var val"
    by (rule substitute.simps)
  moreover have "substitute F (Suc (Suc k)) this var val =
      substitute_body F (make F (Suc k)) (substitute F (Suc k)) this var val"
    by (rule substitute.simps)
  ultimately show ?case by metis
qed

lemma substitute_more_fuel:
  "k \<le> k' \<Longrightarrow> refines (substitute F k this var val) (substitute F k' this var val)"
proof (induction k' arbitrary: this var val)
  case 0
  then show ?case by (simp add: refines_refl)
next
  case (Suc k')
  show ?case
  proof (cases "k = Suc k'")
    case True
    then show ?thesis by (simp add: refines_refl)
  next
    case False
    with Suc.prems have "k \<le> k'" by simp
    from refines_trans[OF Suc.IH[OF this] substitute_more_fuel_step] show ?thesis .
  qed
qed

lemma make_more_fuel:
  "k \<le> k' \<Longrightarrow> refines (make F k opcode ins iv fv) (make F k' opcode ins iv fv)"
proof (induction k')
  case 0
  then show ?case by (simp add: refines_refl)
next
  case (Suc k')
  show ?case
  proof (cases "k = Suc k'")
    case True
    then show ?thesis by (simp add: refines_refl)
  next
    case False
    with Suc.prems have "k \<le> k'" by simp
    from refines_trans[OF Suc.IH[OF this] make_step] show ?thesis .
  qed
qed

section \<open>Traversals over the inputs\<close>

text \<open>The inputs of a node of a reachable graph were created before the node.\<close>

lemma inputs_earlier:
  assumes "reachable F g" "i < length (allNodes g)" "j \<in> set (inputs (allNodes g ! i))"
  shows "j < i"
  using invariant_node_ok[OF reachable_invariant[OF assms(1)] assms(2)] assms(3)
  by (simp add: node_ok_def)

text \<open>
  \<open>collectSum\<close> returns on every node of a graph that satisfies the invariant: a fuel above
  the position of the node is enough, since the inputs are older than the node.
\<close>

lemma collectSum_more_fuel_le:
  "k \<le> k' \<Longrightarrow> refines (collectSum F k this positive terms) (collectSum F k' this positive terms)"
proof (induction k')
  case 0
  then show ?case by (simp add: refines_refl)
next
  case (Suc k')
  show ?case
  proof (cases "k = Suc k'")
    case True
    then show ?thesis by (simp add: refines_refl)
  next
    case False
    with Suc.prems have "k \<le> k'" by simp
    from refines_trans[OF Suc.IH[OF this] collectSum_more_fuel] show ?thesis .
  qed
qed

lemma collectSum_Ok_more_fuel:
  assumes "collectSum F k this positive terms g = Ok r" "k \<le> k'"
  shows "collectSum F k' this positive terms g = Ok r"
proof -
  from collectSum_more_fuel_le[OF assms(2), of F this positive terms]
  have "collectSum F k this positive terms g = OutOfFuel \<or>
        collectSum F k' this positive terms g = collectSum F k this positive terms g"
    unfolding refines_def by (rule spec)
  with assms(1) show ?thesis by simp
qed

lemma collectSum_returns:
  assumes "invariant g" "this < length (allNodes g)"
  shows "\<exists>terms' g'. collectSum F (Suc this) this positive terms g = Ok (terms', g')"
  using assms
proof (induction this arbitrary: g positive terms rule: less_induct)
  case (less p)
  let ?n = "allNodes g ! p"
  note ok = invariant_node_ok[OF less.prems, unfolded node_ok_def]
  have child: "\<exists>t1 g1. collectSum F p (inputs ?n ! i) sign ts g0 = Ok (t1, g1) \<and>
      invariant g1 \<and> extends g0 g1"
    if "i < length (inputs ?n)" "invariant g0" "extends g g0" for i sign ts g0
  proof -
    from that(1) ok have lt: "inputs ?n ! i < p" by simp
    with less.prems(2) that(3) have "inputs ?n ! i < length (allNodes g0)"
      by (simp add: extends_def)
    from less.IH[OF lt that(2) this] obtain t1 g1 where
      "collectSum F (Suc (inputs ?n ! i)) (inputs ?n ! i) sign ts g0 = Ok (t1, g1)"
      by blast
    from collectSum_Ok_more_fuel[OF this] lt
    have r: "collectSum F p (inputs ?n ! i) sign ts g0 = Ok (t1, g1)" by simp
    from preservesD[OF preserves_collectSum that(2) r] r show ?thesis by blast
  qed
  have binary: "\<exists>r. bnd (elem (inputs ?n) 0) (\<lambda>a. bnd (collectSum F p a positive terms) (\<lambda>terms.
         bnd (elem (inputs ?n) 1) (\<lambda>b. collectSum F p b sign terms))) g = Ok r"
    if two: "length (inputs ?n) = 2" for sign
  proof -
    from child[of 0 g positive terms] two less.prems(1) obtain t1 g1 where
      1: "collectSum F p (inputs ?n ! 0) positive terms g = Ok (t1, g1)"
         "invariant g1" "extends g g1"
      by (auto simp: extends_refl)
    from child[of 1 g1 sign t1] two 1 obtain t2 g2 where
      2: "collectSum F p (inputs ?n ! 1) sign t1 g1 = Ok (t2, g2)"
      by auto
    from two 1(1) 2 show ?thesis
      by (simp add: bnd_apply elem_def ret_apply)
  qed
  have unary: "\<exists>r. bnd (elem (inputs ?n) 0) (\<lambda>a. bnd (collectSum F p a positive terms) (\<lambda>terms.
         bnd (make_int F (ival ?n)) (\<lambda>k. ret (terms @ [(k, True)])))) g = Ok r"
    if one: "length (inputs ?n) = 1"
  proof -
    from child[of 0 g positive terms] one less.prems(1) obtain t1 g1 where
      1: "collectSum F p (inputs ?n ! 0) positive terms g = Ok (t1, g1)"
      by (auto simp: extends_refl)
    obtain z g2 where "make_int F (ival ?n) g1 = Ok (z, g2)"
      using make_int_returns by blast
    with one 1 show ?thesis
      by (simp add: bnd_apply elem_def ret_apply)
  qed
  from ok binary unary less.prems(2) show ?case
    by (simp add: collect_body_def bnd_apply node_def ret_apply)
qed

text \<open>
  \<open>substitute\<close> rebuilds the nodes with \<open>make\<close>, and \<open>make(And, a, b)\<close> does not return
  when \<open>a\<close> has type Int.
\<close>

lemma and_of_int_diverges:
  assumes "invariant g" "a < length (allNodes g)" "type (allNodes g ! a) = IntT"
  shows "make F k And [a, b] iv fv g = OutOfFuel"
proof (cases k)
  case 0
  then show ?thesis by (simp add: out_of_fuel_def)
next
  case (Suc k1)
  from int_to_bool_diverges[OF assms]
  have "as_type F k1 a Bool g = OutOfFuel" by simp
  then show ?thesis
    using assms
    by (simp add: Suc make_body_def infer_type_def bnd_apply assert_def ret_apply
        operand_def elem_def node_def coerce_def Let_def)
qed

lemma and_of_or_run:
  "\<exists>g. and_of_or empty_graph = Ok (6, g) \<and> 6 < length (allNodes g) \<and>
        op (allNodes g ! 6) = And \<and> inputs (allNodes g ! 6) = [4, 5] \<and>
        deps (allNodes g ! 6) = {DepX, DepY} \<and>
        (\<exists>g'. mapM (\<lambda>i. substitute exact_ops 4 i VarX 0) [4, 5] g = Ok ([7, 5], g') \<and>
              7 < length (allNodes g') \<and> type (allNodes g' ! 7) = IntT)"
  by (simp add: and_of_or_def ev cong: blocks)

lemma preserves_and_of_or: "preserves and_of_or"
  unfolding and_of_or_def by (intro preserves_intros preserves_make)

lemma mapM_substitute_fuel:
  assumes "mapM (\<lambda>i. substitute F k0 i var val) xs g = Ok r"
  shows "mapM (\<lambda>i. substitute F k i var val) xs g = OutOfFuel \<or>
         mapM (\<lambda>i. substitute F k i var val) xs g = Ok r"
proof (cases "k \<le> k0")
  case True
  have "refines (mapM (\<lambda>i. substitute F k i var val) xs)
          (mapM (\<lambda>i. substitute F k0 i var val) xs)"
    by (rule refines_mapM) (rule substitute_more_fuel[OF True])
  with assms show ?thesis by (auto simp: refines_def)
next
  case False
  then have le: "k0 \<le> k" by simp
  have "refines (mapM (\<lambda>i. substitute F k0 i var val) xs)
          (mapM (\<lambda>i. substitute F k i var val) xs)"
    by (rule refines_mapM) (rule substitute_more_fuel[OF le])
  then have "mapM (\<lambda>i. substitute F k0 i var val) xs g = OutOfFuel \<or>
      mapM (\<lambda>i. substitute F k i var val) xs g = mapM (\<lambda>i. substitute F k0 i var val) xs g"
    unfolding refines_def by blast
  with assms show ?thesis by simp
qed

section \<open>The claims\<close>

text \<open>
  C3. \<open>make(Times, make(Plus, VarX, VarY), make(3))\<close> returns a \<open>Plus\<close> node whose two
  inputs are the nodes that \<open>make(Times, VarX, make(3))\<close> and
  \<open>make(Times, VarY, make(3))\<close> return, in this order: the level test of the rewrite
  holds. The factory fuses each of the two products into a \<open>TimesImm\<close> with the
  immediate 3.
\<close>

theorem times_of_sum_distributes:
  "run (bnd (make exact_ops 6 VarX [] 0 0) (\<lambda>x.
     bnd (make exact_ops 6 VarY [] 0 0) (\<lambda>y.
     bnd (make_int exact_ops 3) (\<lambda>c.
     bnd (make exact_ops 6 Plus [x, y] 0 0) (\<lambda>s.
     bnd (make exact_ops 6 Times [s, c] 0 0) (\<lambda>r.
     bnd (make exact_ops 6 Times [x, c] 0 0) (\<lambda>xc.
     bnd (make exact_ops 6 Times [y, c] 0 0) (\<lambda>yc.
     bnd (node r) (\<lambda>n.
     bnd (node xc) (\<lambda>nx.
     bnd (node yc) (\<lambda>ny.
     ret (op n = Plus \<and> inputs n = [xc, yc] \<and>
          op nx = TimesImm \<and> inputs nx = [x] \<and> ival nx = 3 \<and>
          op ny = TimesImm \<and> inputs ny = [y] \<and> ival ny = 3)))))))))))) = Ok True"
  unfolding run_def by (simp add: ev cong: blocks)

text \<open>
  C4. The fold of \<open>And\<close> reads \<open>inputs[0]->ival\<close> of the coerced guard. A guard that
  is the float constant 1 is coerced to a \<open>NEQ\<close> node, whose \<open>ival\<close> is 0: the fold
  of \<open>And(make(1.0f), make(5))\<close> is the int constant 0, not the constant 5.
\<close>

theorem and_fold_of_true_guard:
  "run (bnd (make_float 1) (\<lambda>guard.
     bnd (make_int exact_ops 5) (\<lambda>v.
     bnd (make exact_ops 6 And [guard, v] 0 0) (\<lambda>r.
     bnd (node r) (\<lambda>n.
     ret (r = v, op n, type n, ival n)))))) = Ok (False, Const, IntT, 0)"
  unfolding run_def by (simp add: ev cong: blocks)

text \<open>
  C5. \<open>rebalanceSum\<close> is not idempotent on the sum \<open>(VarX + Abs(1)) + Abs(1)\<close>: the
  first call returns a new node \<open>Plus(make(0), VarX)\<close> (the two \<open>Abs\<close> terms have no
  dependencies, and their sum is folded from their \<open>ival\<close> fields); the second call
  returns \<open>VarX\<close>.
\<close>

theorem rebalanceSum_twice:
  "run (bnd (make_int exact_ops 1) (\<lambda>c.
     bnd (make exact_ops 6 Abs [c] 0 0) (\<lambda>a.
     bnd (make exact_ops 6 VarX [] 0 0) (\<lambda>x.
     bnd (make exact_ops 6 Plus [x, a] 0 0) (\<lambda>p.
     bnd (make exact_ops 6 Plus [p, a] 0 0) (\<lambda>n.
     bnd (rebalanceSum exact_ops 6 n) (\<lambda>r1.
     bnd (rebalanceSum exact_ops 6 r1) (\<lambda>r2.
     bnd (make_int exact_ops 0) (\<lambda>z.
     bnd (node r1) (\<lambda>n1.
     ret (r2 = r1, r2 = x, op n1, inputs n1 = [z, x]))))))))))) = Ok (False, True, Plus, True)"
  unfolding run_def by (simp add: ev cong: blocks)

text \<open>
  C7. \<open>substitute\<close> with an opcode that is not a variable returns when the node has
  that opcode: on an \<open>UnboundVar\<close> node, \<open>substitute(UnboundVar, 5)\<close> is the int
  constant 5.
\<close>

theorem substitute_of_own_opcode:
  "run (bnd (make exact_ops 6 UnboundVar [] 0 0) (\<lambda>n.
     bnd (substitute exact_ops 6 n UnboundVar 5) (\<lambda>r.
     bnd (node r) (\<lambda>m.
     ret (op m, type m, ival m))))) = Ok (Const, IntT, 5)"
  unfolding run_def by (simp add: ev cong: blocks)

text \<open>
  C9. In every reachable graph, the terms that \<open>rebalanceSum\<close> collects from a
  \<open>Plus\<close>, \<open>Minus\<close> or \<open>PlusImm\<close> node hold a term that is not a constant: the
  vector \<open>nonConstTerms\<close> is not empty, and the read of its first element after the
  sort is in range.
\<close>

theorem sum_has_nonconstant_term:
  assumes "reachable F g" and "node this g = Ok (n, g)" and "is_sum (op n)"
    and "collectSum F k this True [] g = Ok (terms, g1)"
    and "split_terms terms g1 = Ok ((constTerms, nonConstTerms), g2)"
  shows "nonConstTerms \<noteq> [] \<and>
         elem (sort_by_level lv nonConstTerms) 0 g2 = Ok (sort_by_level lv nonConstTerms ! 0, g2)"
proof -
  from assms(1) have inv: "invariant g" by (rule reachable_invariant)
  from assms(2) have valid: "this < length (allNodes g)" and n: "n = allNodes g ! this"
    by (simp_all add: node_Ok)
  from nonconstant_term[OF inv valid assms(3)[unfolded n] assms(4,5)]
  have ne: "nonConstTerms \<noteq> []" .
  then have "0 < length (sort_by_level lv nonConstTerms)"
    by (simp add: length_sort_by_level)
  with ne show ?thesis
    by (simp add: elem_def ret_def)
qed

theorem sum_has_nonconstant_term_witness:
  "reachable exact_ops example_graph \<and>
   node 4 example_graph = Ok (allNodes example_graph ! 4, example_graph) \<and>
   is_sum (op (allNodes example_graph ! 4)) \<and>
   collectSum exact_ops 3 4 True [] example_graph =
     Ok ([(0, True), (2, True), (1, True)], example_graph) \<and>
   split_terms [(0, True), (2, True), (1, True)] example_graph =
     Ok (([(0, True), (1, True)], [(2, True)]), example_graph) \<and>
   elem (sort_by_level (\<lambda>p. level (allNodes example_graph ! p)) [(2, True)]) 0 example_graph =
     Ok ((2, True), example_graph)"
proof -
  have n: "node 4 example_graph = Ok (allNodes example_graph ! 4, example_graph)"
    by (simp add: example_graph_def example_sum_def ev cong: blocks)
  have s: "is_sum (op (allNodes example_graph ! 4))"
    by (simp add: is_sum_def example_graph_def example_sum_def ev cong: blocks)
  have c: "collectSum exact_ops 3 4 True [] example_graph =
     Ok ([(0, True), (2, True), (1, True)], example_graph)"
    by (simp add: example_graph_def example_sum_def ev cong: blocks)
  have t: "split_terms [(0, True), (2, True), (1, True)] example_graph =
     Ok (([(0, True), (1, True)], [(2, True)]), example_graph)"
    by (simp add: example_graph_def example_sum_def ev cong: blocks)
  from sum_has_nonconstant_term[OF example_reachable n s c t,
      of "\<lambda>p. level (allNodes example_graph ! p)"]
  show ?thesis
    using example_reachable n s c t by (simp add: sort_by_level_def)
qed



text \<open>
  C6. On the sum of the claim, \<open>Plus(make(1), Plus(VarX, make(2)))\<close>, \<open>rebalanceSum\<close>
  returns the node \<open>PlusImm\<close> with input \<open>VarX\<close> and immediate 3. On an Int-typed sum
  with a Float constant among its terms the constant is lost. \<open>make(PlusImm, s, 3)\<close> with
  \<open>s = make(Plus, fx, make(2.0f))\<close> and \<open>fx = make(IntToFloat, make(VarX))\<close> is a
  \<open>PlusImm\<close> node of type Int over the Float sum \<open>s\<close>: \<open>PlusImm\<close> takes its input as it
  is. \<open>collectSum\<close> gives the terms \<open>fx\<close>, the Float constant 2 and the Int constant 3,
  all positive. The Int branch of \<open>rebalanceSum\<close> adds up the \<open>ival\<close> fields of the
  constants, and that of the Float constant is 0: the result is the node \<open>PlusImm\<close> with
  input \<open>fx\<close> and immediate 3, not 5.
\<close>

theorem rebalanceSum_of_int_over_float_sum:
  "run (bnd example_sum (\<lambda>n. bnd (rebalanceSum exact_ops 4 n) (\<lambda>r. bnd (node r) (\<lambda>m.
      bnd (make exact_ops 1 VarX [] 0 0) (\<lambda>x. ret (op m, inputs m = [x], ival m)))))) =
     Ok (PlusImm, True, 3) \<and>
   run (bnd int_over_float_sum (\<lambda>(fx, n). bnd (node n) (\<lambda>m.
      bnd (mapM node (inputs m)) (\<lambda>ins.
      ret (op m, type m, ival m, map (\<lambda>i. (op i, type i)) ins))))) =
     Ok (PlusImm, IntT, 3, [(Plus, Float)]) \<and>
   run (bnd int_over_float_sum (\<lambda>(fx, n). bnd (collectSum exact_ops 3 n True []) (\<lambda>terms.
      mapM (\<lambda>tm. bnd (node (fst tm)) (\<lambda>m.
        ret (fst tm = fx, op m, type m, ival m, fval m, snd tm))) terms))) =
     Ok [(True, IntToFloat, Float, 0, 0, True),
         (False, Const, Float, 0, 2, True),
         (False, Const, IntT, 3, 0, True)] \<and>
   run (bnd int_over_float_sum (\<lambda>(fx, n). bnd (rebalanceSum exact_ops 4 n) (\<lambda>r.
      bnd (node r) (\<lambda>m. ret (op m, type m, inputs m = [fx], ival m, fval m))))) =
     Ok (PlusImm, IntT, True, 3, 0)"
proof -
  have "run (bnd int_over_float_sum (\<lambda>(fx, n). bnd (node n) (\<lambda>m.
      bnd (mapM node (inputs m)) (\<lambda>ins.
      ret (op m, type m, ival m, map (\<lambda>i. (op i, type i)) ins))))) =
     Ok (PlusImm, IntT, 3, [(Plus, Float)])"
    unfolding run_def by (simp add: int_over_float_sum_def ev cong: blocks)
  moreover have "run (bnd int_over_float_sum (\<lambda>(fx, n).
      bnd (collectSum exact_ops 3 n True []) (\<lambda>terms.
      mapM (\<lambda>tm. bnd (node (fst tm)) (\<lambda>m.
        ret (fst tm = fx, op m, type m, ival m, fval m, snd tm))) terms))) =
     Ok [(True, IntToFloat, Float, 0, 0, True),
         (False, Const, Float, 0, 2, True),
         (False, Const, IntT, 3, 0, True)]"
    unfolding run_def by (simp add: int_over_float_sum_def ev cong: blocks)
  moreover have "run (bnd int_over_float_sum (\<lambda>(fx, n). bnd (rebalanceSum exact_ops 4 n) (\<lambda>r.
      bnd (node r) (\<lambda>m. ret (op m, type m, inputs m = [fx], ival m, fval m))))) =
     Ok (PlusImm, IntT, True, 3, 0)"
    unfolding run_def by (simp add: int_over_float_sum_def ev cong: blocks)
  ultimately show ?thesis
    using rebalance_example by simp
qed

text \<open>
  C2. \<open>make(Or, b, x)\<close> with \<open>b\<close> of type Bool and \<open>x\<close> of type Int never returns:
  the test for Int looks at \<open>inputs[0]\<close> twice, the type chosen is Bool, and the
  coercion of \<open>x\<close> to Bool builds \<open>NEQ(x, make(0))\<close>, whose operands are coerced to Bool
  in turn, without end. Whatever the fuel, the call runs out of it.
\<close>

theorem or_of_bool_and_int:
  "run (bnd bool_and_int (\<lambda>(b, x). bnd (node b) (\<lambda>nb. bnd (node x) (\<lambda>nx.
     ret (type nb, type nx))))) = Ok (Bool, IntT) \<and>
   (\<forall>k. run (bnd bool_and_int (\<lambda>(b, x). make exact_ops k Or [b, x] 0 0)) = OutOfFuel)"
proof -
  from bool_and_int_run obtain g where
    g: "bool_and_int empty_graph = Ok ((2, 3), g)" and
    t: "2 < length (allNodes g)" "type (allNodes g ! 2) = Bool"
       "3 < length (allNodes g)" "type (allNodes g ! 3) = IntT"
    by blast
  from preservesD[OF preserves_bool_and_int invariant_empty g] have inv: "invariant g"
    by simp
  have "run (bnd bool_and_int (\<lambda>(b, x). make exact_ops k Or [b, x] 0 0)) = OutOfFuel" for k
    using or_diverges[OF inv t, of exact_ops k 0 0]
    by (simp add: run_def bnd_apply g)
  moreover have "run (bnd bool_and_int (\<lambda>(b, x). bnd (node b) (\<lambda>nb. bnd (node x) (\<lambda>nx.
     ret (type nb, type nx))))) = Ok (Bool, IntT)"
    using t by (simp add: run_def bnd_apply g node_def ret_apply)
  ultimately show ?thesis by blast
qed

text \<open>
  C1 (as amended). A call \<open>make(cmp, a, b)\<close> with a comparison \<open>cmp\<close> that returns, in a
  reachable graph, returns a node of type Bool, and before the comparison is built the
  two operands are coerced to one type: Float if either operand has type Float,
  otherwise Bool (not Int). The theorem after the witness shows, on a comparison of two
  Bool nodes, that the operands stay of type Bool.
\<close>

theorem comparison_operands_and_type:
  assumes "reachable F g" and "cmp \<in> {LT, GT, LTE, GTE, EQ, NEQ}"
    and "make F (Suc k) cmp [a, b] iv fv g = Ok (r, g')"
  shows "type (allNodes g' ! r) = Bool \<and>
         (\<exists>a' b' g1. infer_type (as_type F k) cmp [a, b] g = Ok (Inr (Bool, [a', b']), g1) \<and>
            type (allNodes g1 ! a') =
              (if type (allNodes g ! a) = Float \<or> type (allNodes g ! b) = Float then Float else Bool) \<and>
            type (allNodes g1 ! b') =
              (if type (allNodes g ! a) = Float \<or> type (allNodes g ! b) = Float then Float else Bool))"
proof -
  let ?t = "if type (allNodes g ! a) = Float \<or> type (allNodes g ! b) = Float then Float else Bool"
  from assms(1) have inv: "invariant g" by (rule reachable_invariant)
  from make_cast_type(3)[OF inv assms(3,2)] have r: "type (allNodes g' ! r) = Bool" by simp
  have op: "cmp \<in> {IntToFloat, FloatToInt, And, LT, GT, LTE, GTE, EQ, NEQ}"
    using assms(2) by auto
  from assms(3) obtain x g1 where it: "infer_type (as_type F k) cmp [a, b] g = Ok (x, g1)"
    unfolding make.simps make_body_cast[OF op] bnd_Ok by blast
  from it obtain a' ga b' where
    ca: "as_type F k a ?t g = Ok (a', ga)" and
    cb: "as_type F k b ?t ga = Ok (b', g1)" and
    x: "x = Inr (Bool, [a', b'])"
    unfolding comparison_cases[OF assms(2)]
    by (auto simp: bnd_Ok assert_Ok ret_Ok coerce_Ok Let_def dest!: either_float_Ok)
  from preservesD[OF preserves_as_type inv ca] have inva: "invariant ga" by simp
  from preservesD[OF preserves_as_type inva cb] have ext: "extends ga g1" by simp
  from as_type_type[OF inv ca] have a': "a' < length (allNodes ga)" "type (allNodes ga ! a') = ?t"
    by simp_all
  from as_type_type[OF inva cb] have b': "type (allNodes g1 ! b') = ?t" by simp
  from extends_type[OF ext a'(1)] a'(2) have "type (allNodes g1 ! a') = ?t" by simp
  with r it x b' show ?thesis by blast
qed

theorem comparison_operands_and_type_witness:
  "reachable exact_ops constants_graph \<and> LT \<in> {LT, GT, LTE, GTE, EQ, NEQ} \<and>
   (\<exists>g'. make exact_ops (Suc 1) LT [0, 1] 0 0 constants_graph = Ok (2, g') \<and>
      type (allNodes g' ! 2) = Bool \<and>
      infer_type (as_type exact_ops 1) LT [0, 1] constants_graph =
        Ok (Inr (Bool, [0, 1]), constants_graph) \<and>
      type (allNodes constants_graph ! 0) = Float \<and> type (allNodes constants_graph ! 1) = Float)"
proof -
  have m: "LT \<in> {LT, GT, LTE, GTE, EQ, NEQ}" by simp
  have "\<exists>g'. make exact_ops (Suc 1) LT [0, 1] 0 0 constants_graph = Ok (2, g')"
    by (simp add: constants_graph_def ev cong: blocks)
  then obtain g' where run: "make exact_ops (Suc 1) LT [0, 1] 0 0 constants_graph = Ok (2, g')"
    by blast
  have it: "infer_type (as_type exact_ops 1) LT [0, 1] constants_graph =
        Ok (Inr (Bool, [0, 1]), constants_graph)"
    by (simp add: constants_graph_def ev cong: blocks)
  have ty: "type (allNodes constants_graph ! 0) = Float" "type (allNodes constants_graph ! 1) = Float"
    by (simp_all add: constants_graph_def ev cong: blocks)
  from comparison_operands_and_type[OF constants_graph_reachable m run]
  have "type (allNodes g' ! 2) = Bool" by simp
  with constants_graph_reachable m run it ty show ?thesis by blast
qed

text \<open>
  C1 (as stated) fails: in \<open>make(EQ, b, b)\<close> with \<open>b\<close> of type Bool the operands are not
  coerced to Int or to Float, the node built has \<open>b\<close> itself, of type Bool, as its inputs.
\<close>

theorem comparison_of_bools:
  "run (bnd bool_and_int (\<lambda>(b, x). bnd (make exact_ops 2 EQ [b, b] 0 0) (\<lambda>r.
     bnd (node r) (\<lambda>n. bnd (node b) (\<lambda>nb.
     ret (op n, inputs n = [b, b], type nb, type nb = IntT \<or> type nb = Float)))))) =
   Ok (EQ, True, Bool, False)"
  unfolding run_def by (simp add: bool_and_int_def ev cong: blocks)

text \<open>
  C10. The inputs of a node are older than the node, yet \<open>substitute\<close> does not return on
  every node the factory builds. On \<open>top = make(And, make(Or, b, b), make(VarY))\<close>, where
  \<open>b\<close> is a comparison that depends on \<open>x\<close>, \<open>top->substitute(VarX, 0)\<close> rebuilds the
  inputs first: the comparison becomes a Bool node without dependencies, the \<open>Or\<close> of two
  such nodes is folded to the Int constant 0, and \<open>make(And, ...)\<close> coerces that Int
  constant to Bool, which never returns. Whatever the fuel, the call runs out of it.
\<close>

theorem substitute_of_folded_guard:
  "run (bnd and_of_or (\<lambda>top. bnd (node top) (\<lambda>n.
      ret (top, op n, inputs n, DepX \<in> deps n)))) = Ok (6, And, [4, 5], True) \<and>
   (\<forall>k. run (bnd and_of_or (\<lambda>top. substitute exact_ops k top VarX 0)) = OutOfFuel)"
proof -
  from and_of_or_run obtain g g' where
    g: "and_of_or empty_graph = Ok (6, g)" and
    n: "6 < length (allNodes g)" "op (allNodes g ! 6) = And"
       "inputs (allNodes g ! 6) = [4, 5]" "deps (allNodes g ! 6) = {DepX, DepY}" and
    m: "mapM (\<lambda>i. substitute exact_ops 4 i VarX 0) [4, 5] g = Ok ([7, 5], g')" and
    z: "7 < length (allNodes g')" "type (allNodes g' ! 7) = IntT"
    by blast
  from preservesD[OF preserves_and_of_or invariant_empty g] have inv: "invariant g"
    by simp
  have "preserves (mapM (\<lambda>i. substitute exact_ops 4 i VarX 0) [4, 5])"
    by (rule preserves_mapM) (rule preserves_substitute)
  from preservesD[OF this inv m] have inv': "invariant g'" by simp
  have "substitute exact_ops k 6 VarX 0 g = OutOfFuel" for k
  proof (cases k)
    case 0
    then show ?thesis by (simp add: out_of_fuel_def)
  next
    case (Suc k1)
    from mapM_substitute_fuel[OF m, of k1]
    consider "mapM (\<lambda>i. substitute exact_ops k1 i VarX 0) [4, 5] g = OutOfFuel"
      | "mapM (\<lambda>i. substitute exact_ops k1 i VarX 0) [4, 5] g = Ok ([7, 5], g')"
      by blast
    then have "bnd (mapM (\<lambda>i. substitute exact_ops k1 i VarX 0) [4, 5])
        (\<lambda>newInputs. make exact_ops k1 And newInputs iv fv) g = OutOfFuel" for iv fv
    proof cases
      case 1
      then show ?thesis by (simp add: bnd_apply)
    next
      case 2
      with and_of_int_diverges[OF inv' z, of exact_ops k1 5 iv fv] show ?thesis
        by (simp add: bnd_apply)
    qed
    then show ?thesis
      using n by (simp add: Suc substitute_body_def bnd_apply node_def ret_apply)
  qed
  then have "run (bnd and_of_or (\<lambda>top. substitute exact_ops k top VarX 0)) = OutOfFuel" for k
    by (simp add: run_def bnd_apply g)
  moreover have "run (bnd and_of_or (\<lambda>top. bnd (node top) (\<lambda>n.
      ret (top, op n, inputs n, DepX \<in> deps n)))) = Ok (6, And, [4, 5], True)"
    using n by (simp add: run_def bnd_apply g node_def ret_apply)
  ultimately show ?thesis by blast
qed
end
